theory Spec2Isabelle
  imports Main
begin

section \<open>Randomised Kruskal maze generation (kruskal_maze.py)\<close>

text \<open>
  The class \<^verbatim>\<open>KruskalMaze\<close> of \<^verbatim>\<open>src/kruskal_maze.py\<close> is embedded function by
  function. Python integers are \<open>int\<close>, lists are HOL lists read with Python's index
  rules, exceptions are values of \<open>error\<close>, and the pseudo-random source is an explicit
  list of draws that the randomised loops consume. The Tk window and the canvas are
  rendering only and are left out; the divisions that compute the window geometry, the
  size of a painted cell and the animation delay are kept, since a division can raise.
\<close>

subsection \<open>Python primitives\<close>

datatype error = IndexError | ValueError | ZeroDivisionError | RecursionError | OutOfRange

text \<open>\<^verbatim>\<open>range(n)\<close>: the integers \<open>0 .. n - 1\<close>, empty when \<open>n \<le> 0\<close>.\<close>

definition py_range :: "int \<Rightarrow> int list" where
  "py_range n = map int [0..<nat n]"

text \<open>\<^verbatim>\<open>xs[i]\<close>: a negative index counts from the end, anything else outside raises.\<close>

definition py_index :: "'a list \<Rightarrow> int \<Rightarrow> error + nat" where
  "py_index xs i =
     (if 0 \<le> i \<and> i < int (length xs) then Inr (nat i)
      else if - int (length xs) \<le> i \<and> i < 0 then Inr (nat (int (length xs) + i))
      else Inl IndexError)"

definition py_get :: "'a list \<Rightarrow> int \<Rightarrow> error + 'a" where
  "py_get xs i = (case py_index xs i of Inl e \<Rightarrow> Inl e | Inr k \<Rightarrow> Inr (xs ! k))"

definition py_div :: "int \<Rightarrow> int \<Rightarrow> error + int" where
  "py_div a b = (if b = 0 then Inl ZeroDivisionError else Inr (a div b))"

text \<open>
  \<^verbatim>\<open>random.randint(a, b)\<close> raises \<^verbatim>\<open>ValueError\<close> on an empty range before it draws.
  Otherwise it consumes one draw \<open>r\<close> and returns \<open>a + r mod (b - a + 1)\<close>, so that every
  value of \<open>a .. b\<close>, and no other, can be returned. \<open>None\<close> means that the supply of
  draws is used up: the computation has not returned yet.
\<close>

fun randint :: "int \<Rightarrow> int \<Rightarrow> nat list \<Rightarrow> (error + int \<times> nat list) option" where
  "randint a b rs =
     (if b < a then Some (Inl ValueError)
      else (case rs of
              [] \<Rightarrow> None
            | r # rs' \<Rightarrow> Some (Inr (a + int (r mod nat (b - a + 1)), rs'))))"

subsection \<open>Cells and the grid\<close>

text \<open>Modelled from the spec: the class \<^verbatim>\<open>Cell\<close> (\<^verbatim>\<open>cell.py\<close> is not among the sources),
  an integer coordinate pair in grid space (section 3); the code reads its attributes
  \<^verbatim>\<open>x\<close> and \<^verbatim>\<open>y\<close>.\<close>

datatype Cell = Cell (cell_x: int) (cell_y: int)

definition CELL_WALL :: int where "CELL_WALL = 1"
definition CELL_PASSAGE :: int where "CELL_PASSAGE = 0"
definition WINDOW_SIZE :: int where "WINDOW_SIZE = 750"

text \<open>\<^verbatim>\<open>self.maze[y][x]\<close> and \<^verbatim>\<open>self.maze[y][x] = v\<close>.\<close>

definition maze_get :: "int list list \<Rightarrow> int \<Rightarrow> int \<Rightarrow> error + int" where
  "maze_get m x y = (case py_get m y of Inl e \<Rightarrow> Inl e | Inr row \<Rightarrow> py_get row x)"

definition maze_set :: "int list list \<Rightarrow> int \<Rightarrow> int \<Rightarrow> int \<Rightarrow> error + int list list" where
  "maze_set m x y v =
     (case py_index m y of
        Inl e \<Rightarrow> Inl e
      | Inr j \<Rightarrow> (case py_index (m ! j) x of
                   Inl e \<Rightarrow> Inl e
                 | Inr i \<Rightarrow> Inr (m[j := (m ! j)[i := v]])))"

text \<open>Lines 33 to 41 of \<^verbatim>\<open>__init__\<close>: the two nested loops that fill the grid.\<close>

definition init_row :: "int \<Rightarrow> int \<Rightarrow> int list" where
  "init_row maze_width y =
     map (\<lambda>x. if x mod 2 = 1 \<and> y mod 2 = 1 then CELL_PASSAGE else CELL_WALL)
       (py_range maze_width)"

definition init_maze :: "int \<Rightarrow> int \<Rightarrow> int list list" where
  "init_maze maze_width maze_height = map (init_row maze_width) (py_range maze_height)"

subsection \<open>The disjoint-set structure\<close>

text \<open>
  Modelled from the spec: the class \<^verbatim>\<open>DisjointSet\<close> (\<^verbatim>\<open>disjoint_set.py\<close> is not among
  the sources). Following sections 3 and 4.1 of the specification it maps every logical
  cell to a parent pointer and a size and keeps the live counter \<open>set_count\<close>, which starts
  at \<open>width * height\<close>. The generator passes grid cells; the logical cell \<open>(i, j)\<close> is the
  grid cell \<open>(2 i + 1, 2 j + 1)\<close> and is stored at position \<open>j * width + i\<close>. A cell that
  is not a logical cell of the \<open>[0, width) \<times> [0, height)\<close> range fails with the
  out-of-range condition. \<open>find\<close> follows the parent pointers to the representative and
  compresses the path on the way back; \<open>union\<close> is a no-op returning \<open>False\<close> when both
  cells have the same representative, and otherwise links the smaller component below the
  larger one, decrements \<open>set_count\<close> by one and returns \<open>True\<close>.
\<close>

record DisjointSet =
  ds_width :: int
  ds_height :: int
  parent :: "nat list"
  comp_size :: "nat list"
  set_count :: int

text \<open>Modelled from the spec: the constructor \<^verbatim>\<open>DisjointSet(width, height)\<close>. Every
  logical cell is its own parent, in a component of size one, and \<open>set_count\<close> starts at
  \<open>width * height\<close> (section 3).\<close>

definition DisjointSet_init :: "int \<Rightarrow> int \<Rightarrow> DisjointSet" where
  "DisjointSet_init width height =
     \<lparr>ds_width = width, ds_height = height,
      parent = [0..<nat (width * height)],
      comp_size = replicate (nat (width * height)) 1,
      set_count = width * height\<rparr>"

text \<open>Modelled from the spec: the identity of a logical cell, with the range check of
  section 4.1. \<open>None\<close> is the out-of-range condition.\<close>

definition cell_index :: "DisjointSet \<Rightarrow> Cell \<Rightarrow> nat option" where
  "cell_index ds c =
     (let i = (cell_x c - 1) div 2; j = (cell_y c - 1) div 2
      in if cell_x c mod 2 = 1 \<and> cell_y c mod 2 = 1
            \<and> 0 \<le> i \<and> i < ds_width ds \<and> 0 \<le> j \<and> j < ds_height ds
         then Some (nat (j * ds_width ds + i)) else None)"

text \<open>
  Modelled from the spec: \<open>find\<close> (section 4.1), the recursive search with path
  compression. The first argument of \<open>find_rec\<close> bounds the depth of the recursion, and
  \<open>find\<close> starts it with the number of cells; \<open>None\<close> means that the bound was reached or
  that a pointer left the table, which \<open>find\<close> reports as a recursion error.
\<close>

fun find_rec :: "nat \<Rightarrow> nat list \<Rightarrow> nat \<Rightarrow> (nat \<times> nat list) option" where
  "find_rec 0 p i = None"
| "find_rec (Suc n) p i =
     (if length p \<le> i then None
      else if p ! i = i then Some (i, p)
      else (case find_rec n p (p ! i) of
              None \<Rightarrow> None
            | Some (r, p') \<Rightarrow> Some (r, p'[i := r])))"

definition ds_find :: "DisjointSet \<Rightarrow> Cell \<Rightarrow> error + nat \<times> DisjointSet" where
  "ds_find ds c =
     (case cell_index ds c of
        None \<Rightarrow> Inl OutOfRange
      | Some i \<Rightarrow> (case find_rec (length (parent ds)) (parent ds) i of
                    None \<Rightarrow> Inl RecursionError
                  | Some (r, p') \<Rightarrow> Inr (r, ds\<lparr>parent := p'\<rparr>)))"

text \<open>Modelled from the spec: \<open>union\<close> (section 4.1), by size. \<open>ds_link\<close> hangs the root
  \<open>child\<close> below the root \<open>root\<close>, adds the sizes and decrements \<open>set_count\<close>.\<close>

definition ds_link :: "DisjointSet \<Rightarrow> nat \<Rightarrow> nat \<Rightarrow> DisjointSet" where
  "ds_link ds child root =
     ds\<lparr>parent := (parent ds)[child := root],
        comp_size := (comp_size ds)[root := comp_size ds ! root + comp_size ds ! child],
        set_count := set_count ds - 1\<rparr>"

definition ds_union :: "DisjointSet \<Rightarrow> Cell \<Rightarrow> Cell \<Rightarrow> error + bool \<times> DisjointSet" where
  "ds_union ds a b =
     (case ds_find ds a of
        Inl e \<Rightarrow> Inl e
      | Inr (ra, ds1) \<Rightarrow>
          (case ds_find ds1 b of
             Inl e \<Rightarrow> Inl e
           | Inr (rb, ds2) \<Rightarrow>
               if ra = rb then Inr (False, ds2)
               else if comp_size ds2 ! ra < comp_size ds2 ! rb
               then Inr (True, ds_link ds2 ra rb)
               else Inr (True, ds_link ds2 rb ra)))"

subsection \<open>The maze object\<close>

record KruskalMaze =
  maze_width :: int
  maze_height :: int
  maze :: "int list list"
  disjoint_set :: DisjointSet

text \<open>Lines 31 to 44 of \<^verbatim>\<open>__init__\<close>: the grid and the disjoint-set structure.\<close>

definition new_maze :: "int \<Rightarrow> int \<Rightarrow> KruskalMaze" where
  "new_maze width height =
     \<lparr>maze_width = width * 2 + 1, maze_height = height * 2 + 1,
      maze = init_maze (width * 2 + 1) (height * 2 + 1),
      disjoint_set = DisjointSet_init width height\<rparr>"

text \<open>Lines 49 to 58: the size of the window, with Python's floor division.\<close>

definition window_geometry :: "int \<Rightarrow> int \<Rightarrow> error + int \<times> int" where
  "window_geometry width height =
     (if width > height
      then (case py_div (WINDOW_SIZE * height) width of
              Inl e \<Rightarrow> Inl e | Inr v \<Rightarrow> Inr (WINDOW_SIZE, v))
      else (case py_div (WINDOW_SIZE * width) height of
              Inl e \<Rightarrow> Inl e | Inr v \<Rightarrow> Inr (v, WINDOW_SIZE)))"

text \<open>\<^verbatim>\<open>is_wall_removable\<close>; the chain of \<^verbatim>\<open>or\<close> reads the neighbours in order and
  stops at the first passage.\<close>

definition is_wall_removable :: "KruskalMaze \<Rightarrow> Cell \<Rightarrow> error + bool" where
  "is_wall_removable self cell =
     (case maze_get (maze self) (cell_x cell) (cell_y cell) of
        Inl e \<Rightarrow> Inl e
      | Inr v \<Rightarrow>
          if v = CELL_WALL then
            if cell_x cell = 0 \<or> cell_x cell = maze_width self - 1
               \<or> cell_y cell = 0 \<or> cell_y cell = maze_height self - 1
            then Inr False
            else (case maze_get (maze self) (cell_x cell) (cell_y cell - 1) of
                    Inl e \<Rightarrow> Inl e
                  | Inr n1 \<Rightarrow>
                      if n1 = CELL_PASSAGE then Inr True
                      else (case maze_get (maze self) (cell_x cell) (cell_y cell + 1) of
                              Inl e \<Rightarrow> Inl e
                            | Inr n2 \<Rightarrow>
                                if n2 = CELL_PASSAGE then Inr True
                                else (case maze_get (maze self) (cell_x cell - 1) (cell_y cell) of
                                        Inl e \<Rightarrow> Inl e
                                      | Inr n3 \<Rightarrow>
                                          if n3 = CELL_PASSAGE then Inr True
                                          else (case maze_get (maze self) (cell_x cell + 1) (cell_y cell) of
                                                  Inl e \<Rightarrow> Inl e
                                                | Inr n4 \<Rightarrow>
                                                    if n4 = CELL_PASSAGE then Inr True
                                                    else Inr False))))
          else Inr False)"

text \<open>Lines 69 to 74 of \<^verbatim>\<open>generate_maze_kruskal\<close>: every grid cell is visited row by row
  and the removable walls are appended to the list.\<close>

definition all_cells :: "KruskalMaze \<Rightarrow> Cell list" where
  "all_cells self =
     concat (map (\<lambda>y. map (\<lambda>x. Cell x y) (py_range (maze_width self)))
               (py_range (maze_height self)))"

fun collect_removable :: "KruskalMaze \<Rightarrow> Cell list \<Rightarrow> Cell list \<Rightarrow> error + Cell list" where
  "collect_removable self [] acc = Inr acc"
| "collect_removable self (cell # cells) acc =
     (case is_wall_removable self cell of
        Inl e \<Rightarrow> Inl e
      | Inr b \<Rightarrow> collect_removable self cells (if b then acc @ [cell] else acc))"

definition initial_removable_walls :: "KruskalMaze \<Rightarrow> error + Cell list" where
  "initial_removable_walls self = collect_removable self (all_cells self) []"

subsection \<open>The generation loop\<close>

text \<open>
  The state of the loop of lines 80 to 106: the object, the local list
  \<^verbatim>\<open>removable_walls\<close>, and the trace of the canvas updates, which records the wall that
  had just been removed at each call of \<^verbatim>\<open>draw_maze\<close>.
\<close>

record gen_state =
  self_obj :: KruskalMaze
  removable_walls :: "Cell list"
  removed :: "Cell list"

definition loop_cond :: "gen_state \<Rightarrow> bool" where
  "loop_cond s \<longleftrightarrow> set_count (disjoint_set (self_obj s)) > 1 \<and> removable_walls s \<noteq> []"

text \<open>The two cells on either side of a wall (lines 86 to 91).\<close>

definition side_cells :: "Cell \<Rightarrow> Cell \<times> Cell" where
  "side_cells wall =
     (if cell_x wall mod 2 = 1
      then (Cell (cell_x wall) (cell_y wall - 1), Cell (cell_x wall) (cell_y wall + 1))
      else (Cell (cell_x wall - 1) (cell_y wall), Cell (cell_x wall + 1) (cell_y wall)))"

text \<open>\<^verbatim>\<open>removable_walls.pop(wall_index)\<close> for an index that \<^verbatim>\<open>removable_walls[wall_index]\<close>
  has already accepted.\<close>

definition pop_at :: "'a list \<Rightarrow> nat \<Rightarrow> 'a list" where
  "pop_at xs k = take k xs @ drop (Suc k) xs"

text \<open>
  Of \<^verbatim>\<open>draw_maze\<close> (line 136) and of the animation delay (lines 104 and 105) only the
  divisions are kept: the floor division for the size of a painted cell, and the true
  division of \<^verbatim>\<open>ANIMATION_DELAY\<close>, which raises on a zero divisor.
\<close>

definition draw_maze :: "KruskalMaze \<Rightarrow> error + unit" where
  "draw_maze self =
     (case py_div WINDOW_SIZE (max (maze_width self) (maze_height self)) of
        Inl e \<Rightarrow> Inl e
      | Inr cell_size \<Rightarrow> Inr ())"

definition animation_delay :: "KruskalMaze \<Rightarrow> error + unit" where
  "animation_delay self =
     (if (maze_width self * maze_height self) ^ 2 = 0 then Inl ZeroDivisionError else Inr ())"

text \<open>One iteration, given the value \<open>wall_index\<close> that \<^verbatim>\<open>randint\<close> returned.\<close>

definition loop_body :: "int \<Rightarrow> gen_state \<Rightarrow> error + gen_state" where
  "loop_body wall_index s =
     (case py_index (removable_walls s) wall_index of
        Inl e \<Rightarrow> Inl e
      | Inr k \<Rightarrow>
          let wall = removable_walls s ! k;
              (cell1, cell2) = side_cells wall
          in (case ds_find (disjoint_set (self_obj s)) cell1 of
                Inl e \<Rightarrow> Inl e
              | Inr (r1, ds1) \<Rightarrow>
                  (case ds_find ds1 cell2 of
                     Inl e \<Rightarrow> Inl e
                   | Inr (r2, ds2) \<Rightarrow>
                       if r1 \<noteq> r2 then
                         (case maze_set (maze (self_obj s)) (cell_x wall) (cell_y wall) CELL_PASSAGE of
                            Inl e \<Rightarrow> Inl e
                          | Inr m' \<Rightarrow>
                              (case ds_union ds2 cell1 cell2 of
                                 Inl e \<Rightarrow> Inl e
                               | Inr (merged, ds3) \<Rightarrow>
                                   let self' = (self_obj s)\<lparr>maze := m', disjoint_set := ds3\<rparr>
                                   in (case draw_maze self' of
                                         Inl e \<Rightarrow> Inl e
                                       | Inr u \<Rightarrow>
                                           (case animation_delay self' of
                                              Inl e \<Rightarrow> Inl e
                                            | Inr v \<Rightarrow>
                                                Inr (s\<lparr>self_obj := self',
                                                       removable_walls := pop_at (removable_walls s) k,
                                                       removed := removed s @ [wall]\<rparr>)))))
                       else Inr (s\<lparr>self_obj := (self_obj s)\<lparr>disjoint_set := ds2\<rparr>\<rparr>))))"

text \<open>The \<^verbatim>\<open>while\<close> loop. Each iteration takes one draw; \<open>None\<close> means that the draws
  are used up while the loop condition still holds.\<close>

fun kruskal_loop :: "nat list \<Rightarrow> gen_state \<Rightarrow> (error + gen_state \<times> nat list) option" where
  "kruskal_loop rs s =
     (if loop_cond s then
        (case rs of
           [] \<Rightarrow> None
         | r # rs' \<Rightarrow>
             (case randint 0 (int (length (removable_walls s)) - 1) rs of
                None \<Rightarrow> None
              | Some (Inl e) \<Rightarrow> Some (Inl e)
              | Some (Inr (wall_index, rest)) \<Rightarrow>
                  (case loop_body wall_index s of
                     Inl e \<Rightarrow> Some (Inl e)
                   | Inr s' \<Rightarrow> kruskal_loop rs' s')))
      else Some (Inr (s, rs)))"

text \<open>The state after the iterations that a prefix of the draws pays for: every state
  that the loop passes through is such a state.\<close>

fun kruskal_steps :: "nat list \<Rightarrow> gen_state \<Rightarrow> error + gen_state" where
  "kruskal_steps [] s = Inr s"
| "kruskal_steps (r # rs) s =
     (if loop_cond s then
        (case randint 0 (int (length (removable_walls s)) - 1) (r # rs) of
           None \<Rightarrow> Inr s
         | Some (Inl e) \<Rightarrow> Inl e
         | Some (Inr (wall_index, rest)) \<Rightarrow>
             (case loop_body wall_index s of
                Inl e \<Rightarrow> Inl e
              | Inr s' \<Rightarrow> kruskal_steps rs s'))
      else Inr s)"

subsection \<open>Start and end cells\<close>

text \<open>One draw of a coordinate pair inside the border (lines 160/161, 163/164, 167/168
  and 170/171).\<close>

definition draw_xy :: "KruskalMaze \<Rightarrow> nat list \<Rightarrow> (error + Cell \<times> nat list) option" where
  "draw_xy self rs =
     (case randint 1 (maze_width self - 2) rs of
        None \<Rightarrow> None
      | Some (Inl e) \<Rightarrow> Some (Inl e)
      | Some (Inr (px, rs1)) \<Rightarrow>
          (case randint 1 (maze_height self - 2) rs1 of
             None \<Rightarrow> None
           | Some (Inl e) \<Rightarrow> Some (Inl e)
           | Some (Inr (py, rs2)) \<Rightarrow> Some (Inr (Cell px py, rs2))))"

text \<open>Lines 160 to 164: draw, and draw again while the cell is not a passage.\<close>

function pick_start :: "KruskalMaze \<Rightarrow> nat list \<Rightarrow> (error + Cell \<times> nat list) option" where
  "pick_start self rs =
     (case draw_xy self rs of
        None \<Rightarrow> None
      | Some (Inl e) \<Rightarrow> Some (Inl e)
      | Some (Inr (c, rs')) \<Rightarrow>
          (case maze_get (maze self) (cell_x c) (cell_y c) of
             Inl e \<Rightarrow> Some (Inl e)
           | Inr v \<Rightarrow> if v \<noteq> CELL_PASSAGE then pick_start self rs' else Some (Inr (c, rs'))))"
  by pat_completeness auto
termination
  by (relation "measure (\<lambda>(self, rs). length rs)") (auto simp: draw_xy_def split: if_splits list.splits)

text \<open>Lines 167 to 171: the same for the end cell, which must also differ from the
  start cell.\<close>

function pick_end :: "KruskalMaze \<Rightarrow> Cell \<Rightarrow> nat list \<Rightarrow> (error + Cell \<times> nat list) option" where
  "pick_end self start rs =
     (case draw_xy self rs of
        None \<Rightarrow> None
      | Some (Inl e) \<Rightarrow> Some (Inl e)
      | Some (Inr (c, rs')) \<Rightarrow>
          (case maze_get (maze self) (cell_x c) (cell_y c) of
             Inl e \<Rightarrow> Some (Inl e)
           | Inr v \<Rightarrow>
               if v \<noteq> CELL_PASSAGE \<or> (cell_x start = cell_x c \<and> cell_y start = cell_y c)
               then pick_end self start rs' else Some (Inr (c, rs'))))"
  by pat_completeness auto
termination
  by (relation "measure (\<lambda>(self, start, rs). length rs)") (auto simp: draw_xy_def split: if_splits list.splits)

text \<open>\<^verbatim>\<open>mark_start_end_cells\<close> returns the two cells that it paints; the size of the
  painted squares is computed with a floor division (line 174).\<close>

definition mark_start_end_cells :: "KruskalMaze \<Rightarrow> nat list \<Rightarrow> (error + Cell \<times> Cell) option" where
  "mark_start_end_cells self rs =
     (case pick_start self rs of
        None \<Rightarrow> None
      | Some (Inl e) \<Rightarrow> Some (Inl e)
      | Some (Inr (start, rs1)) \<Rightarrow>
          (case pick_end self start rs1 of
             None \<Rightarrow> None
           | Some (Inl e) \<Rightarrow> Some (Inl e)
           | Some (Inr (end, rs2)) \<Rightarrow>
               (case py_div WINDOW_SIZE (max (maze_width self) (maze_height self)) of
                  Inl e \<Rightarrow> Some (Inl e)
                | Inr cell_size \<Rightarrow> Some (Inr (start, end)))))"

subsection \<open>The whole run\<close>

record result =
  final :: gen_state
  start_cell :: Cell
  end_cell :: Cell

definition start_state :: "KruskalMaze \<Rightarrow> Cell list \<Rightarrow> gen_state" where
  "start_state obj walls = \<lparr>self_obj = obj, removable_walls = walls, removed = []\<rparr>"

text \<open>\<^verbatim>\<open>generate_maze_kruskal\<close> up to the end of its loop (lines 69 to 106), and the
  states that this part of the method passes through.\<close>

definition generation_loop :: "KruskalMaze \<Rightarrow> nat list \<Rightarrow> (error + gen_state \<times> nat list) option" where
  "generation_loop obj rs =
     (case initial_removable_walls obj of
        Inl e \<Rightarrow> Some (Inl e)
      | Inr walls \<Rightarrow> kruskal_loop rs (start_state obj walls))"

definition generation_steps :: "KruskalMaze \<Rightarrow> nat list \<Rightarrow> error + gen_state" where
  "generation_steps obj rs =
     (case initial_removable_walls obj of
        Inl e \<Rightarrow> Inl e
      | Inr walls \<Rightarrow> kruskal_steps rs (start_state obj walls))"

definition generate_maze_kruskal :: "KruskalMaze \<Rightarrow> nat list \<Rightarrow> (error + result) option" where
  "generate_maze_kruskal obj rs =
     (case generation_loop obj rs of
        None \<Rightarrow> None
      | Some (Inl e) \<Rightarrow> Some (Inl e)
      | Some (Inr (s, rs')) \<Rightarrow>
          (case mark_start_end_cells (self_obj s) rs' of
             None \<Rightarrow> None
           | Some (Inl e) \<Rightarrow> Some (Inl e)
           | Some (Inr (c1, c2)) \<Rightarrow>
               Some (Inr \<lparr>final = s, start_cell = c1, end_cell = c2\<rparr>)))"

text \<open>\<^verbatim>\<open>__init__\<close>: the grid, the disjoint-set structure, the window, the generation.\<close>

definition KruskalMaze_init :: "int \<Rightarrow> int \<Rightarrow> nat list \<Rightarrow> (error + result) option" where
  "KruskalMaze_init width height rs =
     (let obj = new_maze width height
      in case window_geometry width height of
           Inl e \<Rightarrow> Some (Inl e)
         | Inr g \<Rightarrow> generate_maze_kruskal obj rs)"

subsection \<open>Notions used in the statements\<close>

text \<open>A candidate is an interior wall with exactly one even coordinate; a logical cell has
  two odd coordinates inside the grid; the border is the outer frame of the grid.\<close>

definition is_candidate :: "int \<Rightarrow> int \<Rightarrow> Cell \<Rightarrow> bool" where
  "is_candidate width height c \<longleftrightarrow>
     0 < cell_x c \<and> cell_x c < 2 * width \<and> 0 < cell_y c \<and> cell_y c < 2 * height
     \<and> (cell_x c mod 2 = 1) \<noteq> (cell_y c mod 2 = 1)"

definition is_logical :: "int \<Rightarrow> int \<Rightarrow> Cell \<Rightarrow> bool" where
  "is_logical width height c \<longleftrightarrow>
     cell_x c mod 2 = 1 \<and> cell_y c mod 2 = 1
     \<and> 1 \<le> cell_x c \<and> cell_x c \<le> 2 * width - 1
     \<and> 1 \<le> cell_y c \<and> cell_y c \<le> 2 * height - 1"

definition on_border :: "int \<Rightarrow> int \<Rightarrow> Cell \<Rightarrow> bool" where
  "on_border width height c \<longleftrightarrow>
     0 \<le> cell_x c \<and> cell_x c \<le> 2 * width \<and> 0 \<le> cell_y c \<and> cell_y c \<le> 2 * height
     \<and> (cell_x c = 0 \<or> cell_x c = 2 * width \<or> cell_y c = 0 \<or> cell_y c = 2 * height)"

definition in_grid :: "int \<Rightarrow> int \<Rightarrow> Cell \<Rightarrow> bool" where
  "in_grid width height c \<longleftrightarrow>
     0 \<le> cell_x c \<and> cell_x c \<le> 2 * width \<and> 0 \<le> cell_y c \<and> cell_y c \<le> 2 * height"

text \<open>The shape of a grid for \<open>width\<close> by \<open>height\<close> logical cells, and the state of a
  grid cell as the code reads it.\<close>

definition grid_shape :: "int \<Rightarrow> int \<Rightarrow> int list list \<Rightarrow> bool" where
  "grid_shape width height m \<longleftrightarrow>
     length m = nat (2 * height + 1) \<and> (\<forall>row \<in> set m. length row = nat (2 * width + 1))"

definition cell_state :: "gen_state \<Rightarrow> Cell \<Rightarrow> error + int" where
  "cell_state s c = maze_get (maze (self_obj s)) (cell_x c) (cell_y c)"

text \<open>The candidate list that the scan of lines 69 to 74 builds on the initial grid, and the
  passage cells of a grid, in the order of that scan.\<close>

definition candidate_walls :: "int \<Rightarrow> int \<Rightarrow> Cell list" where
  "candidate_walls width height =
     filter (is_candidate width height) (all_cells (new_maze width height))"

definition passage_cells :: "gen_state \<Rightarrow> Cell list" where
  "passage_cells s =
     filter (\<lambda>c. cell_state s c = Inr CELL_PASSAGE) (all_cells (self_obj s))"

text \<open>The outcome of the test of line 93 for the two sides of a wall:
  \<^verbatim>\<open>find(cell1) == find(cell2)\<close>, the second search run on the structure that the first
  one has compressed.\<close>

definition sides_connected :: "DisjointSet \<Rightarrow> Cell \<Rightarrow> bool" where
  "sides_connected ds wall \<longleftrightarrow>
     (case ds_find ds (fst (side_cells wall)) of
        Inl e \<Rightarrow> False
      | Inr (r1, ds1) \<Rightarrow>
          (case ds_find ds1 (snd (side_cells wall)) of
             Inl e \<Rightarrow> False
           | Inr (r2, ds2) \<Rightarrow> r1 = r2))"

subsection \<open>Invariants used in the proofs\<close>

text \<open>The representative of a position, found by following the parent pointers without
  changing them, with the same bound on the number of steps as \<open>find_rec\<close>; the positions
  that are their own parent.\<close>

fun root_of :: "nat \<Rightarrow> nat list \<Rightarrow> nat \<Rightarrow> nat option" where
  "root_of 0 p i = None"
| "root_of (Suc n) p i =
     (if length p \<le> i then None
      else if p ! i = i then Some i
      else root_of n p (p ! i))"

definition rep :: "nat list \<Rightarrow> nat \<Rightarrow> nat" where
  "rep p i = the (root_of (length p) p i)"

definition roots :: "nat list \<Rightarrow> nat set" where
  "roots p = {i. i < length p \<and> p ! i = i}"

text \<open>A well-formed forest: \<open>set_count\<close> is the number of roots, and every position reaches
  a root within \<open>length p + 1 - set_count\<close> steps (each union lengthens a path by at most
  one step), so that the bound of \<open>find_rec\<close> is never reached.\<close>

definition uf_inv :: "nat list \<Rightarrow> int \<Rightarrow> bool" where
  "uf_inv p sc \<longleftrightarrow>
     1 \<le> sc \<and> sc \<le> int (length p)
     \<and> (\<forall>i<length p. root_of (Suc (length p) - nat sc) p i \<noteq> None)
     \<and> sc = int (card {i. i < length p \<and> p ! i = i})"

text \<open>The position of a logical cell in the tables, and the invariant of the structure for a
  maze of \<open>width\<close> by \<open>height\<close> cells.\<close>

definition logical_index :: "int \<Rightarrow> Cell \<Rightarrow> nat" where
  "logical_index width c = nat ((cell_y c - 1) div 2 * width + (cell_x c - 1) div 2)"

definition ds_inv :: "int \<Rightarrow> int \<Rightarrow> DisjointSet \<Rightarrow> bool" where
  "ds_inv width height ds \<longleftrightarrow>
     ds_width ds = width \<and> ds_height ds = height
     \<and> length (parent ds) = nat (width * height)
     \<and> uf_inv (parent ds) (set_count ds)"

text \<open>The two sides of a wall are in one component.\<close>

definition wall_connected :: "int \<Rightarrow> DisjointSet \<Rightarrow> Cell \<Rightarrow> bool" where
  "wall_connected width ds wall \<longleftrightarrow>
     rep (parent ds) (logical_index width (fst (side_cells wall)))
       = rep (parent ds) (logical_index width (snd (side_cells wall)))"

text \<open>The invariant of the generation loop: the grid has its shape; the candidates that are
  left and the walls that were removed are disjoint lists without repetition that together
  hold every candidate; a grid cell is a passage exactly if it is an odd/odd cell or a
  removed wall; every removed wall joins two cells of one component; and the number of
  removals is the number of unions that \<open>set_count\<close> has counted.\<close>

definition maze_inv :: "int \<Rightarrow> int \<Rightarrow> gen_state \<Rightarrow> bool" where
  "maze_inv width height s \<longleftrightarrow>
     maze_width (self_obj s) = 2 * width + 1 \<and> maze_height (self_obj s) = 2 * height + 1
     \<and> grid_shape width height (maze (self_obj s))
     \<and> distinct (removable_walls s) \<and> distinct (removed s)
     \<and> set (removable_walls s) \<inter> set (removed s) = {}
     \<and> set (removable_walls s) \<union> set (removed s) = {c. is_candidate width height c}
     \<and> (\<forall>c. in_grid width height c \<longrightarrow>
           cell_state s c =
             Inr (if (cell_x c mod 2 = 1 \<and> cell_y c mod 2 = 1) \<or> c \<in> set (removed s)
                  then CELL_PASSAGE else CELL_WALL))
     \<and> ds_inv width height (disjoint_set (self_obj s))
     \<and> (\<forall>wall \<in> set (removed s). wall_connected width (disjoint_set (self_obj s)) wall)
     \<and> int (length (removed s)) = width * height - set_count (disjoint_set (self_obj s))"

section \<open>Properties\<close>

subsection \<open>Python lists\<close>

lemma length_py_range [simp]: "length (py_range n) = nat n"
  by (simp add: py_range_def)

lemma nth_py_range [simp]: "k < nat n \<Longrightarrow> py_range n ! k = int k"
  by (simp add: py_range_def)

lemma set_py_range: "set (py_range n) = {x. 0 \<le> x \<and> x < n}"
proof -
  have "x \<in> int ` {0..<nat n} \<longleftrightarrow> 0 \<le> x \<and> x < n" for x
  proof
    assume "x \<in> int ` {0..<nat n}" then show "0 \<le> x \<and> x < n" by auto
  next
    assume a: "0 \<le> x \<and> x < n"
    then have "nat x \<in> {0..<nat n}" by auto
    moreover have "x = int (nat x)" using a by simp
    ultimately show "x \<in> int ` {0..<nat n}" by blast
  qed
  then show ?thesis by (auto simp: py_range_def)
qed

lemma py_index_inside:
  "0 \<le> i \<Longrightarrow> i < int (length xs) \<Longrightarrow> py_index xs i = Inr (nat i)"
  by (simp add: py_index_def)

lemma py_get_inside:
  "0 \<le> i \<Longrightarrow> i < int (length xs) \<Longrightarrow> py_get xs i = Inr (xs ! nat i)"
  by (simp add: py_get_def py_index_inside)

lemma py_index_less: "py_index xs i = Inr k \<Longrightarrow> k < length xs"
  by (auto simp: py_index_def split: if_splits)

subsection \<open>The initial grid\<close>

lemma length_init_maze [simp]: "length (init_maze mw mh) = nat mh"
  by (simp add: init_maze_def)

lemma nth_init_maze:
  "j < nat mh \<Longrightarrow> init_maze mw mh ! j = init_row mw (int j)"
  by (simp add: init_maze_def)

lemma length_init_row [simp]: "length (init_row mw y) = nat mw"
  by (simp add: init_row_def)

lemma nth_init_row:
  "i < nat mw \<Longrightarrow> init_row mw y ! i =
     (if int i mod 2 = 1 \<and> y mod 2 = 1 then CELL_PASSAGE else CELL_WALL)"
  by (simp add: init_row_def)

lemma rows_init_maze: "row \<in> set (init_maze mw mh) \<Longrightarrow> length row = nat mw"
  by (auto simp: init_maze_def)

lemma maze_get_init_maze:
  assumes "0 \<le> x" "x < mw" "0 \<le> y" "y < mh"
  shows "maze_get (init_maze mw mh) x y =
           Inr (if x mod 2 = 1 \<and> y mod 2 = 1 then CELL_PASSAGE else CELL_WALL)"
proof -
  have "py_get (init_maze mw mh) y = Inr (init_row mw y)"
    using assms by (simp add: py_get_inside nth_init_maze)
  moreover have "py_get (init_row mw y) x =
      Inr (if x mod 2 = 1 \<and> y mod 2 = 1 then CELL_PASSAGE else CELL_WALL)"
    using assms by (simp add: py_get_inside nth_init_row)
  ultimately show ?thesis by (simp add: maze_get_def)
qed

text \<open>
  Claim C4. For every \<open>width \<ge> 1\<close> and \<open>height \<ge> 1\<close> the constructor allocates
  \<open>2 * height + 1\<close> rows of \<open>2 * width + 1\<close> cells each, and the cell \<open>(x, y)\<close> of this
  grid is a passage if and only if both \<open>x\<close> and \<open>y\<close> are odd, and a wall otherwise.
\<close>

theorem init_grid_shape_and_content:
  "1 \<le> width \<Longrightarrow> 1 \<le> height \<Longrightarrow>
     length (maze (new_maze width height)) = nat (2 * height + 1)
     \<and> (\<forall>row \<in> set (maze (new_maze width height)). length row = nat (2 * width + 1))
     \<and> (\<forall>x y. 0 \<le> x \<and> x < 2 * width + 1 \<and> 0 \<le> y \<and> y < 2 * height + 1 \<longrightarrow>
           maze_get (maze (new_maze width height)) x y =
             Inr (if odd x \<and> odd y then CELL_PASSAGE else CELL_WALL))"
  by (simp add: new_maze_def rows_init_maze maze_get_init_maze mult.commute odd_iff_mod_2_eq_one)

theorem init_grid_shape_and_content_witness:
  "(1::int) \<le> 2 \<and> (1::int) \<le> 1
   \<and> length (maze (new_maze 2 1)) = 3
   \<and> maze_get (maze (new_maze 2 1)) 3 1 = Inr CELL_PASSAGE
   \<and> maze_get (maze (new_maze 2 1)) 2 1 = Inr CELL_WALL"
  using init_grid_shape_and_content [of 2 1] by simp

subsection \<open>The candidate walls\<close>

lemma maze_get_new_maze:
  "in_grid w h (Cell x y) \<Longrightarrow>
   maze_get (maze (new_maze w h)) x y =
     Inr (if x mod 2 = 1 \<and> y mod 2 = 1 then CELL_PASSAGE else CELL_WALL)"
  by (simp add: new_maze_def in_grid_def maze_get_init_maze)

lemma wall_neq_passage [simp]: "CELL_WALL \<noteq> CELL_PASSAGE" "CELL_PASSAGE \<noteq> CELL_WALL"
  by (simp_all add: CELL_WALL_def CELL_PASSAGE_def)

lemma is_wall_removable_new_maze:
  assumes "in_grid w h (Cell x y)"
  shows "is_wall_removable (new_maze w h) (Cell x y) = Inr (is_candidate w h (Cell x y))"
proof (cases "x = 0 \<or> x = 2 * w \<or> y = 0 \<or> y = 2 * h")
  case True
  then have "\<not> is_candidate w h (Cell x y)"
    by (auto simp: is_candidate_def)
  moreover have "maze_width (new_maze w h) = 2 * w + 1" "maze_height (new_maze w h) = 2 * h + 1"
    by (simp_all add: new_maze_def)
  ultimately show ?thesis
    using True assms
    by (auto simp: is_wall_removable_def maze_get_new_maze)
next
  case False
  with assms have inner: "0 < x" "x < 2 * w" "0 < y" "y < 2 * h"
    by (auto simp: in_grid_def)
  then have g: "in_grid w h (Cell x (y - 1))" "in_grid w h (Cell x (y + 1))"
     "in_grid w h (Cell (x - 1) y)" "in_grid w h (Cell (x + 1) y)"
    by (auto simp: in_grid_def)
  have dims: "maze_width (new_maze w h) = 2 * w + 1" "maze_height (new_maze w h) = 2 * h + 1"
    by (simp_all add: new_maze_def)
  have par: "(y - 1) mod 2 = 1 \<longleftrightarrow> y mod 2 \<noteq> 1" "(y + 1) mod 2 = 1 \<longleftrightarrow> y mod 2 \<noteq> 1"
     "(x - 1) mod 2 = 1 \<longleftrightarrow> x mod 2 \<noteq> 1" "(x + 1) mod 2 = 1 \<longleftrightarrow> x mod 2 \<noteq> 1"
    by presburger+
  show ?thesis
    using inner
    by (simp add: is_wall_removable_def maze_get_new_maze [OF assms] maze_get_new_maze [OF g(1)]
        maze_get_new_maze [OF g(2)] maze_get_new_maze [OF g(3)] maze_get_new_maze [OF g(4)]
        dims par is_candidate_def)
qed

lemma collect_removable_filter:
  "(\<And>c. c \<in> set cells \<Longrightarrow> is_wall_removable obj c = Inr (P c)) \<Longrightarrow>
   collect_removable obj cells acc = Inr (acc @ filter P cells)"
  by (induction cells arbitrary: acc) auto

lemma set_all_cells:
  "set (all_cells obj) = {c. 0 \<le> cell_x c \<and> cell_x c < maze_width obj \<and> 0 \<le> cell_y c \<and> cell_y c < maze_height obj}"
proof -
  have "c \<in> set (all_cells obj) \<longleftrightarrow> 0 \<le> cell_x c \<and> cell_x c < maze_width obj \<and> 0 \<le> cell_y c \<and> cell_y c < maze_height obj" for c
    by (cases c) (auto simp: all_cells_def set_py_range)
  then show ?thesis by blast
qed

lemma distinct_py_range: "distinct (py_range n)"
  by (simp add: py_range_def distinct_map)

lemma distinct_cell_rows:
  "distinct xs \<Longrightarrow> distinct ys \<Longrightarrow>
   distinct (concat (map (\<lambda>y. map (\<lambda>x. Cell x y) xs) ys))"
proof (induction ys)
  case Nil
  then show ?case by simp
next
  case (Cons y ys)
  have "distinct (map (\<lambda>x. Cell x y) xs)"
    using Cons.prems(1) by (simp add: distinct_map inj_on_def)
  moreover have "distinct (concat (map (\<lambda>y. map (\<lambda>x. Cell x y) xs) ys))"
    using Cons by simp
  moreover have "set (map (\<lambda>x. Cell x y) xs) \<inter> set (concat (map (\<lambda>y. map (\<lambda>x. Cell x y) xs) ys)) = {}"
    using Cons.prems(2) by auto
  ultimately show ?case by simp
qed

lemma distinct_all_cells: "distinct (all_cells obj)"
  by (simp add: all_cells_def distinct_cell_rows distinct_py_range)

lemma initial_removable_walls_new_maze:
  "initial_removable_walls (new_maze w h) = Inr (candidate_walls w h)"
proof -
  have "is_wall_removable (new_maze w h) c = Inr (is_candidate w h c)"
    if "c \<in> set (all_cells (new_maze w h))" for c
  proof -
    from that have "in_grid w h c"
      by (auto simp: set_all_cells new_maze_def in_grid_def)
    then show ?thesis
      using is_wall_removable_new_maze [of w h "cell_x c" "cell_y c"] by simp
  qed
  then show ?thesis
    by (simp add: initial_removable_walls_def collect_removable_filter candidate_walls_def)
qed

lemma distinct_candidate_walls: "distinct (candidate_walls w h)"
  by (simp add: candidate_walls_def distinct_all_cells)

lemma set_candidate_walls: "set (candidate_walls w h) = {c. is_candidate w h c}"
  by (auto simp: candidate_walls_def set_all_cells new_maze_def is_candidate_def)

lemma candidate_walls_invalid:
  "w < 1 \<or> h < 1 \<Longrightarrow> candidate_walls w h = []"
proof -
  assume "w < 1 \<or> h < 1"
  then have "set (candidate_walls w h) = {}"
    by (auto simp: set_candidate_walls is_candidate_def)
  then show ?thesis by simp
qed

subsection \<open>Sizes below one\<close>

lemma init_maze_all_walls:
  assumes "mw \<le> 1 \<or> mh \<le> 1" "row \<in> set (init_maze mw mh)" "v \<in> set row"
  shows "v = CELL_WALL"
proof -
  from assms(2) obtain y where y: "0 \<le> y" "y < mh" "row = init_row mw y"
    by (auto simp: init_maze_def set_py_range)
  with assms(3) obtain x where x: "0 \<le> x" "x < mw"
    "v = (if x mod 2 = 1 \<and> y mod 2 = 1 then CELL_PASSAGE else CELL_WALL)"
    by (auto simp: init_row_def set_py_range)
  from assms(1) x(1,2) y(1,2) have "x = 0 \<or> y = 0" by linarith
  with x(3) show ?thesis by auto
qed

lemma kruskal_loop_no_walls:
  "removable_walls s = [] \<Longrightarrow> kruskal_loop rs s = Some (Inr (s, rs))"
  by (simp add: loop_cond_def)

text \<open>
  Claim C5, as amended. For \<open>width < 1\<close> or \<open>height < 1\<close> the constructor makes no size
  check and does not fail at once: it builds the grid, with \<open>max 0 (2 * height + 1)\<close> rows
  of \<open>max 0 (2 * width + 1)\<close> cells that are all walls, the scan finds no removable wall,
  and the generation loop returns without running its body. The theorem after the witness
  shows the grid that is built for \<open>width = 0\<close> and \<open>height = 1\<close>; there the constructor
  fails only in the start/end selection, where \<^verbatim>\<open>randint(1, -1)\<close> raises.
\<close>

theorem invalid_size_not_rejected:
  "width < 1 \<or> height < 1 \<Longrightarrow>
     length (maze (new_maze width height)) = nat (2 * height + 1)
     \<and> (\<forall>row \<in> set (maze (new_maze width height)).
           length row = nat (2 * width + 1) \<and> (\<forall>v \<in> set row. v = CELL_WALL))
     \<and> initial_removable_walls (new_maze width height) = Inr []
     \<and> generation_loop (new_maze width height) rs
         = Some (Inr (start_state (new_maze width height) [], rs))"
proof -
  assume inv: "width < 1 \<or> height < 1"
  then have small: "width * 2 + 1 \<le> 1 \<or> height * 2 + 1 \<le> 1" by linarith
  have a: "length (maze (new_maze width height)) = nat (2 * height + 1)"
    by (simp add: new_maze_def mult.commute)
  have b: "length row = nat (2 * width + 1) \<and> (\<forall>v \<in> set row. v = CELL_WALL)"
    if "row \<in> set (maze (new_maze width height))" for row
    using that init_maze_all_walls [OF small]
    by (auto simp: new_maze_def rows_init_maze mult.commute)
  have c: "initial_removable_walls (new_maze width height) = Inr []"
    using inv by (simp add: initial_removable_walls_new_maze candidate_walls_invalid)
  have d: "generation_loop (new_maze width height) rs
         = Some (Inr (start_state (new_maze width height) [], rs))"
    unfolding generation_loop_def c
    by (simp add: kruskal_loop_no_walls start_state_def del: kruskal_loop.simps)
  from a b c d show ?thesis by blast
qed

theorem invalid_size_not_rejected_witness:
  "((-1::int) < 1 \<or> (2::int) < 1)
   \<and> length (maze (new_maze (-1) 2)) = 5
   \<and> initial_removable_walls (new_maze (-1) 2) = Inr []
   \<and> generation_loop (new_maze (-1) 2) [7] = Some (Inr (start_state (new_maze (-1) 2) [], [7]))"
  using invalid_size_not_rejected [of "-1" 2 "[7]"] by simp

theorem invalid_size_counterexample:
  "maze (new_maze 0 1) = [[CELL_WALL], [CELL_WALL], [CELL_WALL]]
   \<and> generation_loop (new_maze 0 1) [] = Some (Inr (start_state (new_maze 0 1) [], []))
   \<and> KruskalMaze_init 0 1 [] = Some (Inl ValueError)"
proof (intro conjI)
  show "maze (new_maze 0 1) = [[CELL_WALL], [CELL_WALL], [CELL_WALL]]"
    by (simp add: new_maze_def init_maze_def init_row_def py_range_def upt_rec)
  show l: "generation_loop (new_maze 0 1) [] = Some (Inr (start_state (new_maze 0 1) [], []))"
    by (simp add: generation_loop_def initial_removable_walls_new_maze candidate_walls_invalid
        start_state_def loop_cond_def)
  have "maze_width (new_maze 0 1) = 1" by (simp add: new_maze_def)
  then have "pick_start (new_maze 0 1) [] = Some (Inl ValueError)"
    by (subst pick_start.simps) (simp add: draw_xy_def)
  then have "mark_start_end_cells (self_obj (start_state (new_maze 0 1) [])) []
      = Some (Inl ValueError)"
    by (simp add: mark_start_end_cells_def start_state_def del: pick_start.simps)
  moreover have "window_geometry 0 1 = Inr (0, WINDOW_SIZE)"
    by (simp add: window_geometry_def py_div_def)
  ultimately show "KruskalMaze_init 0 1 [] = Some (Inl ValueError)"
    by (simp add: KruskalMaze_init_def generate_maze_kruskal_def l)
qed

subsection \<open>The disjoint-set structure: representatives\<close>

lemma root_of_mono:
  "root_of m p i = Some r \<Longrightarrow> m \<le> m' \<Longrightarrow> root_of m' p i = Some r"
proof (induction m arbitrary: m' i)
  case 0
  then show ?case by simp
next
  case (Suc m)
  then obtain k where k: "m' = Suc k" "m \<le> k" by (cases m') auto
  show ?case
    using Suc.prems(1) Suc.IH [OF _ k(2)] unfolding k(1)
    by (auto split: if_splits)
qed

lemma root_of_is_root:
  "root_of m p i = Some r \<Longrightarrow> r < length p \<and> p ! r = r"
  by (induction m arbitrary: i) (auto split: if_splits)

lemma root_of_arg: "root_of m p i = Some r \<Longrightarrow> i < length p"
  by (cases m) (auto split: if_splits)

lemma root_of_functional:
  assumes "root_of m p i = Some r" "root_of m' p i = Some r'"
  shows "r = r'"
proof -
  have "root_of (max m m') p i = Some r" "root_of (max m m') p i = Some r'"
    using assms by (auto intro: root_of_mono)
  then show ?thesis by simp
qed

lemma root_of_root: "i < length p \<Longrightarrow> p ! i = i \<Longrightarrow> root_of (Suc m) p i = Some i"
  by simp

lemma root_of_update:
  assumes i: "root_of m p i = Some r"
  shows "root_of k p j = Some r' \<Longrightarrow> root_of k (p[i := r]) j = Some r'"
proof (induction k arbitrary: j)
  case 0
  then show ?case by simp
next
  case (Suc k)
  note r = root_of_is_root [OF i]
  have jl: "j < length p" using Suc.prems by (rule root_of_arg)
  show ?case
  proof (cases "p ! j = j")
    case True
    then have "r' = j" using Suc.prems jl by simp
    moreover have "(p[i := r]) ! j = j"
    proof (cases "j = i")
      case True
      then have "root_of (Suc 0) p i = Some i" using \<open>p ! j = j\<close> jl by simp
      then have "r = i" using i by (rule root_of_functional [symmetric])
      then show ?thesis using True jl by simp
    next
      case False
      then show ?thesis using \<open>p ! j = j\<close> by simp
    qed
    ultimately show ?thesis using jl by simp
  next
    case False
    then have step: "root_of k p (p ! j) = Some r'" using Suc.prems jl by simp
    show ?thesis
    proof (cases "j = i")
      case True
      have "r' = r" using Suc.prems i unfolding True by (rule root_of_functional)
      have "r \<noteq> i" using r False True by auto
      obtain k' where k': "k = Suc k'" using step by (cases k) auto
      have "root_of k (p[i := r]) r = Some r"
        unfolding k' using r \<open>r \<noteq> i\<close> by simp
      then show ?thesis using True jl \<open>r \<noteq> i\<close> \<open>r' = r\<close> by simp
    next
      case False
      then show ?thesis using \<open>p ! j \<noteq> j\<close> jl Suc.IH [OF step] by simp
    qed
  qed
qed

lemma find_rec_root_of:
  "find_rec m p i = Some (r, p') \<Longrightarrow> root_of m p i = Some r"
  by (induction m arbitrary: i r p') (auto split: if_splits option.splits)

lemma root_of_find_rec:
  "root_of m p i = Some r \<Longrightarrow> \<exists>p'. find_rec m p i = Some (r, p')"
proof (induction m arbitrary: i)
  case 0
  then show ?case by simp
next
  case (Suc m)
  show ?case
  proof (cases "p ! i = i")
    case True
    then show ?thesis using Suc.prems by (auto split: if_splits)
  next
    case False
    then have il: "i < length p" and "root_of m p (p ! i) = Some r"
      using Suc.prems by (auto split: if_splits)
    then obtain q where "find_rec m p (p ! i) = Some (r, q)"
      using Suc.IH by blast
    then show ?thesis using False il by simp
  qed
qed

lemma find_rec_preserves:
  "find_rec m p i = Some (r, p') \<Longrightarrow>
   length p' = length p \<and> (\<forall>k j r'. root_of k p j = Some r' \<longrightarrow> root_of k p' j = Some r')"
proof (induction m arbitrary: i r p')
  case 0
  then show ?case by simp
next
  case (Suc m)
  show ?case
  proof (cases "p ! i = i")
    case True
    then show ?thesis using Suc.prems by (auto split: if_splits)
  next
    case False
    then obtain q where q: "find_rec m p (p ! i) = Some (r, q)" "p' = q[i := r]" "i < length p"
      using Suc.prems by (auto split: if_splits option.splits)
    from Suc.IH [OF q(1)] have len: "length q = length p"
      and pres: "\<And>k j r'. root_of k p j = Some r' \<Longrightarrow> root_of k q j = Some r'"
      by auto
    have "root_of (Suc m) p i = Some r"
      using Suc.prems by (rule find_rec_root_of)
    then have qi: "root_of (Suc m) q i = Some r" by (rule pres)
    have "root_of k p' j = Some r'" if "root_of k p j = Some r'" for k j r'
      unfolding q(2) using qi pres [OF that] by (rule root_of_update)
    then show ?thesis using len q(2) by simp
  qed
qed

lemma root_of_link:
  assumes "a < length p" "b < length p" "p ! a = a" "p ! b = b" "a \<noteq> b"
  shows "root_of m p i = Some r \<Longrightarrow>
         root_of (Suc m) (p[a := b]) i = Some (if r = a then b else r)"
proof (induction m arbitrary: i)
  case 0
  then show ?case by simp
next
  case (Suc m)
  have il: "i < length p" using Suc.prems by (rule root_of_arg)
  show ?case
  proof (cases "p ! i = i")
    case True
    then have "r = i" using Suc.prems il by simp
    then show ?thesis using True il assms by (cases "i = a") auto
  next
    case False
    then have "i \<noteq> a" using assms by auto
    moreover have "root_of m p (p ! i) = Some r" using False Suc.prems il by simp
    ultimately show ?thesis
      using Suc.IH [of "p ! i"] False il by simp
  qed
qed

lemma finite_roots [simp]: "finite (roots p)"
  by (simp add: roots_def)

lemma uf_inv_init: "1 \<le> n \<Longrightarrow> uf_inv [0..<n] (int n)"
proof -
  assume "1 \<le> n"
  have "{i. i < n \<and> [0..<n] ! i = i} = {..<n}" by auto
  then show ?thesis using \<open>1 \<le> n\<close> by (simp add: uf_inv_def)
qed

lemma uf_inv_total:
  assumes "uf_inv p sc" "i < length p"
  shows "root_of (length p) p i = Some (rep p i)"
proof -
  from assms obtain r where "root_of (Suc (length p) - nat sc) p i = Some r"
    by (auto simp: uf_inv_def)
  moreover have "Suc (length p) - nat sc \<le> length p"
    using assms(1) by (auto simp: uf_inv_def)
  ultimately have "root_of (length p) p i = Some r" by (rule root_of_mono)
  then show ?thesis by (simp add: rep_def)
qed

lemma rep_eqI:
  assumes "uf_inv p sc" "root_of m p i = Some r"
  shows "rep p i = r"
  using uf_inv_total [OF assms(1) root_of_arg [OF assms(2)]] assms(2)
  by (rule root_of_functional)

lemma rep_is_root:
  assumes "uf_inv p sc" "i < length p"
  shows "rep p i \<in> roots p"
  using root_of_is_root [OF uf_inv_total [OF assms]] by (simp add: roots_def)

lemma rep_of_root:
  assumes "uf_inv p sc" "r \<in> roots p"
  shows "rep p r = r"
proof -
  from assms(2) have "root_of (Suc 0) p r = Some r" by (simp add: roots_def)
  with assms(1) show ?thesis by (rule rep_eqI)
qed

lemma uf_inv_card: "uf_inv p sc \<Longrightarrow> sc = int (card (roots p))"
  by (simp add: uf_inv_def roots_def)

lemma uf_inv_preserved:
  assumes inv: "uf_inv p sc"
    and len: "length p' = length p"
    and pres: "\<And>k j r'. root_of k p j = Some r' \<Longrightarrow> root_of k p' j = Some r'"
  shows "uf_inv p' sc \<and> (\<forall>j<length p. rep p' j = rep p j)"
proof -
  have tot: "root_of (length p) p' j = Some (rep p j)" if "j < length p" for j
    using uf_inv_total [OF inv that] by (rule pres)
  have reps: "rep p' j = rep p j" if "j < length p" for j
    using tot [OF that] len by (simp add: rep_def)
  have "roots p' = roots p"
  proof (rule set_eqI)
    fix j
    show "j \<in> roots p' \<longleftrightarrow> j \<in> roots p"
    proof
      assume "j \<in> roots p'"
      then have j: "j < length p" "p' ! j = j" using len by (auto simp: roots_def)
      then have "root_of (Suc 0) p' j = Some j" using len by simp
      with tot [OF j(1)] have "rep p j = j" by (rule root_of_functional)
      with rep_is_root [OF inv j(1)] show "j \<in> roots p" by simp
    next
      assume "j \<in> roots p"
      then have "root_of (Suc 0) p j = Some j" by (simp add: roots_def)
      then have "root_of (Suc 0) p' j = Some j" by (rule pres)
      then show "j \<in> roots p'" by (auto simp: roots_def split: if_splits)
    qed
  qed
  moreover have "root_of (Suc (length p') - nat sc) p' i \<noteq> None" if "i < length p'" for i
  proof -
    from inv that len obtain r where "root_of (Suc (length p) - nat sc) p i = Some r"
      by (auto simp: uf_inv_def)
    then have "root_of (Suc (length p) - nat sc) p' i = Some r" by (rule pres)
    then show ?thesis using len by simp
  qed
  ultimately have "uf_inv p' sc"
    using inv len by (simp add: uf_inv_def roots_def)
  with reps show ?thesis by blast
qed

lemma uf_inv_link:
  assumes inv: "uf_inv p sc" and a: "a \<in> roots p" and b: "b \<in> roots p" and ab: "a \<noteq> b"
  shows "uf_inv (p[a := b]) (sc - 1)
         \<and> (\<forall>j<length p. rep (p[a := b]) j = (if rep p j = a then b else rep p j))"
proof -
  let ?q = "p[a := b]"
  from a b have al: "a < length p" "p ! a = a" and bl: "b < length p" "p ! b = b"
    by (auto simp: roots_def)
  have link: "root_of (Suc m) ?q i = Some (if r = a then b else r)"
    if "root_of m p i = Some r" for m i r
    using al(1) bl(1) al(2) bl(2) ab that by (rule root_of_link)
  have "{a, b} \<subseteq> roots p" using a b by simp
  then have "card {a, b} \<le> card (roots p)" by (intro card_mono) auto
  then have two: "2 \<le> sc" using ab uf_inv_card [OF inv] by simp
  have le: "sc \<le> int (length p)" using inv by (simp add: uf_inv_def)
  have "roots ?q = roots p - {a}"
    using al bl ab by (auto simp: roots_def nth_list_update)
  then have "card (roots ?q) = card (roots p) - 1"
    using a by simp
  then have card: "sc - 1 = int (card (roots ?q))"
    using uf_inv_card [OF inv] two by simp
  have fuel: "Suc (length ?q) - nat (sc - 1) = Suc (Suc (length p) - nat sc)"
    using two le by simp
  have tot: "root_of (Suc (length ?q) - nat (sc - 1)) ?q i \<noteq> None" if "i < length ?q" for i
  proof -
    from inv that obtain r where "root_of (Suc (length p) - nat sc) p i = Some r"
      by (auto simp: uf_inv_def)
    from link [OF this] show ?thesis unfolding fuel by simp
  qed
  have inv': "uf_inv ?q (sc - 1)"
    using two le card tot by (simp add: uf_inv_def roots_def)
  have "rep ?q j = (if rep p j = a then b else rep p j)" if "j < length p" for j
    using inv' link [OF uf_inv_total [OF inv that]] by (rule rep_eqI)
  with inv' show ?thesis by blast
qed

lemma cell_index_iff:
  "cell_index ds c = (if is_logical (ds_width ds) (ds_height ds) c
                      then Some (logical_index (ds_width ds) c) else None)"
proof -
  have "0 \<le> (cell_x c - 1) div 2 \<and> (cell_x c - 1) div 2 < ds_width ds
        \<longleftrightarrow> 1 \<le> cell_x c \<and> cell_x c \<le> 2 * ds_width ds - 1" if "cell_x c mod 2 = 1"
    using that by presburger
  moreover have "0 \<le> (cell_y c - 1) div 2 \<and> (cell_y c - 1) div 2 < ds_height ds
        \<longleftrightarrow> 1 \<le> cell_y c \<and> cell_y c \<le> 2 * ds_height ds - 1" if "cell_y c mod 2 = 1"
    using that by presburger
  ultimately show ?thesis
    by (auto simp: cell_index_def is_logical_def logical_index_def Let_def)
qed

lemma logical_index_less:
  assumes "is_logical w h c"
  shows "logical_index w c < nat (w * h)"
proof -
  define i where "i = (cell_x c - 1) div 2"
  define j where "j = (cell_y c - 1) div 2"
  have i: "0 \<le> i" "i \<le> w - 1" and j: "0 \<le> j" "j \<le> h - 1"
    using assms unfolding i_def j_def is_logical_def by presburger+
  have "j * w \<le> (h - 1) * w" using j i by (intro mult_right_mono) auto
  then have "j * w + i < h * w" using i by (simp add: algebra_simps)
  moreover have "0 \<le> j * w + i" using i j by simp
  ultimately show ?thesis
    unfolding logical_index_def i_def [symmetric] j_def [symmetric]
    by (simp add: mult.commute)
qed

lemma ds_find_inv:
  assumes inv: "ds_inv w h ds" and c: "is_logical w h c"
  shows "\<exists>ds'. ds_find ds c = Inr (rep (parent ds) (logical_index w c), ds')
           \<and> ds_inv w h ds' \<and> set_count ds' = set_count ds
           \<and> (\<forall>j<nat (w * h). rep (parent ds') j = rep (parent ds) j)"
proof -
  let ?p = "parent ds" and ?i = "logical_index w c"
  from inv have dims: "ds_width ds = w" "ds_height ds = h"
    and len: "length ?p = nat (w * h)" and uf: "uf_inv ?p (set_count ds)"
    by (auto simp: ds_inv_def)
  have il: "?i < length ?p" using logical_index_less [OF c] len by simp
  have idx: "cell_index ds c = Some ?i" using c dims by (simp add: cell_index_iff)
  from uf_inv_total [OF uf il] obtain p'
    where f: "find_rec (length ?p) ?p ?i = Some (rep ?p ?i, p')"
    using root_of_find_rec by blast
  from find_rec_preserves [OF f] have len': "length p' = length ?p"
    and pres: "\<And>k j r'. root_of k ?p j = Some r' \<Longrightarrow> root_of k p' j = Some r'"
    by auto
  from uf_inv_preserved [OF uf len' pres]
  have uf': "uf_inv p' (set_count ds)" and reps: "\<forall>j<length ?p. rep p' j = rep ?p j"
    by auto
  have "ds_find ds c = Inr (rep ?p ?i, ds\<lparr>parent := p'\<rparr>)"
    by (simp add: ds_find_def idx f)
  moreover have "ds_inv w h (ds\<lparr>parent := p'\<rparr>)"
    using dims len len' uf' by (simp add: ds_inv_def)
  ultimately show ?thesis using reps len by auto
qed

lemma ds_link_inv:
  assumes inv: "ds_inv w h ds" and a: "a \<in> roots (parent ds)" and b: "b \<in> roots (parent ds)"
    and ab: "a \<noteq> b"
  shows "ds_inv w h (ds_link ds a b) \<and> set_count (ds_link ds a b) = set_count ds - 1
         \<and> (\<forall>j<nat (w * h). rep (parent (ds_link ds a b)) j
               = (if rep (parent ds) j = a then b else rep (parent ds) j))"
proof -
  from inv have len: "length (parent ds) = nat (w * h)" and uf: "uf_inv (parent ds) (set_count ds)"
    by (auto simp: ds_inv_def)
  from uf_inv_link [OF uf a b ab] show ?thesis
    using inv len by (simp add: ds_inv_def ds_link_def)
qed

lemma ds_union_inv:
  assumes inv: "ds_inv w h ds" and a: "is_logical w h a" and b: "is_logical w h b"
  shows "\<exists>ds' merged. ds_union ds a b = Inr (merged, ds') \<and> ds_inv w h ds'
           \<and> (merged \<longleftrightarrow> rep (parent ds) (logical_index w a) \<noteq> rep (parent ds) (logical_index w b))
           \<and> set_count ds' = (if merged then set_count ds - 1 else set_count ds)
           \<and> (\<exists>c r. (merged \<longrightarrow> c \<noteq> r
                       \<and> {c, r} = {rep (parent ds) (logical_index w a), rep (parent ds) (logical_index w b)})
                 \<and> (\<forall>j<nat (w * h). rep (parent ds') j
                       = (if merged \<and> rep (parent ds) j = c then r else rep (parent ds) j)))"
proof -
  let ?ia = "logical_index w a" and ?ib = "logical_index w b"
  from ds_find_inv [OF inv a] obtain ds1
    where f1: "ds_find ds a = Inr (rep (parent ds) ?ia, ds1)" and inv1: "ds_inv w h ds1"
      and sc1: "set_count ds1 = set_count ds"
      and rep1: "\<forall>j<nat (w * h). rep (parent ds1) j = rep (parent ds) j"
    by blast
  from ds_find_inv [OF inv1 b] obtain ds2
    where f2: "ds_find ds1 b = Inr (rep (parent ds1) ?ib, ds2)" and inv2: "ds_inv w h ds2"
      and sc2: "set_count ds2 = set_count ds1"
      and rep2: "\<forall>j<nat (w * h). rep (parent ds2) j = rep (parent ds1) j"
    by blast
  have ial: "?ia < nat (w * h)" and ibl: "?ib < nat (w * h)"
    using a b by (auto intro: logical_index_less)
  have rb: "rep (parent ds1) ?ib = rep (parent ds) ?ib" using rep1 ibl by simp
  have reps: "\<forall>j<nat (w * h). rep (parent ds2) j = rep (parent ds) j"
    using rep1 rep2 by simp
  let ?ra = "rep (parent ds) ?ia" and ?rb = "rep (parent ds) ?ib"
  from inv2 have len2: "length (parent ds2) = nat (w * h)"
    and uf2: "uf_inv (parent ds2) (set_count ds2)"
    by (auto simp: ds_inv_def)
  have roots: "?ra \<in> roots (parent ds2)" "?rb \<in> roots (parent ds2)"
    using rep_is_root [OF uf2, of ?ia] rep_is_root [OF uf2, of ?ib] ial ibl len2 reps
    by auto
  show ?thesis
  proof (cases "?ra = ?rb")
    case True
    then have "ds_union ds a b = Inr (False, ds2)"
      by (simp add: ds_union_def f1 f2 rb)
    then show ?thesis using inv2 sc1 sc2 reps True by auto
  next
    case False
    show ?thesis
    proof (cases "comp_size ds2 ! ?ra < comp_size ds2 ! ?rb")
      case True
      then have u: "ds_union ds a b = Inr (True, ds_link ds2 ?ra ?rb)"
        using False by (simp add: ds_union_def f1 f2 rb)
      from ds_link_inv [OF inv2 roots(1) roots(2) False]
      have "ds_inv w h (ds_link ds2 ?ra ?rb)"
        "set_count (ds_link ds2 ?ra ?rb) = set_count ds - 1"
        "\<forall>j<nat (w * h). rep (parent (ds_link ds2 ?ra ?rb)) j
               = (if rep (parent ds) j = ?ra then ?rb else rep (parent ds) j)"
        using sc1 sc2 reps by auto
      with u False show ?thesis by (intro exI [of _ "ds_link ds2 ?ra ?rb"] exI [of _ True] conjI exI [of _ ?ra] exI [of _ ?rb]) auto
    next
      case nlt: False
      then have u: "ds_union ds a b = Inr (True, ds_link ds2 ?rb ?ra)"
        using False by (simp add: ds_union_def f1 f2 rb)
      from ds_link_inv [OF inv2 roots(2) roots(1)] False
      have "ds_inv w h (ds_link ds2 ?rb ?ra)"
        "set_count (ds_link ds2 ?rb ?ra) = set_count ds - 1"
        "\<forall>j<nat (w * h). rep (parent (ds_link ds2 ?rb ?ra)) j
               = (if rep (parent ds) j = ?rb then ?ra else rep (parent ds) j)"
        using sc1 sc2 reps by auto
      with u False show ?thesis by (intro exI [of _ "ds_link ds2 ?rb ?ra"] exI [of _ True] conjI exI [of _ ?rb] exI [of _ ?ra]) auto
    qed
  qed
qed

subsection \<open>Grid updates and the candidate list\<close>

lemma maze_get_nth:
  assumes "grid_shape w h m" "in_grid w h (Cell x y)"
  shows "maze_get m x y = Inr (m ! nat y ! nat x)"
proof -
  from assms have y: "0 \<le> y" "y < int (length m)" and x: "0 \<le> x" "x \<le> 2 * w"
    by (auto simp: grid_shape_def in_grid_def)
  then have "m ! nat y \<in> set m" by simp
  then have "length (m ! nat y) = nat (2 * w + 1)" using assms(1) by (simp add: grid_shape_def)
  then have "py_get (m ! nat y) x = Inr (m ! nat y ! nat x)"
    using x by (simp add: py_get_inside)
  then show ?thesis using y by (simp add: maze_get_def py_get_inside)
qed

lemma maze_set_in_grid:
  assumes sh: "grid_shape w h m" and c: "in_grid w h (Cell x y)"
  shows "\<exists>m'. maze_set m x y v = Inr m' \<and> grid_shape w h m'
           \<and> (\<forall>c'. in_grid w h c' \<longrightarrow>
                 maze_get m' (cell_x c') (cell_y c')
                   = (if c' = Cell x y then Inr v else maze_get m (cell_x c') (cell_y c')))"
proof -
  let ?m' = "m[nat y := (m ! nat y)[nat x := v]]"
  from sh c have y: "0 \<le> y" "y < int (length m)" and x: "0 \<le> x" "x \<le> 2 * w"
    by (auto simp: grid_shape_def in_grid_def)
  then have "m ! nat y \<in> set m" by simp
  then have rl: "length (m ! nat y) = nat (2 * w + 1)" using sh by (simp add: grid_shape_def)
  have set: "maze_set m x y v = Inr ?m'"
    using x y rl by (simp add: maze_set_def py_index_inside)
  have sh': "grid_shape w h ?m'"
  proof -
    have "length row = nat (2 * w + 1)" if "row \<in> set ?m'" for row
    proof -
      from that have "row \<in> insert ((m ! nat y)[nat x := v]) (set m)"
        using set_update_subset_insert by fastforce
      then show ?thesis using sh rl by (auto simp: grid_shape_def)
    qed
    then show ?thesis using sh by (simp add: grid_shape_def)
  qed
  have "maze_get ?m' (cell_x c') (cell_y c')
          = (if c' = Cell x y then Inr v else maze_get m (cell_x c') (cell_y c'))"
    if c': "in_grid w h c'" for c'
  proof -
    obtain x' y' where cc: "c' = Cell x' y'" by (cases c')
    from c' cc sh have y': "0 \<le> y'" "y' < int (length m)" and x': "0 \<le> x'" "x' \<le> 2 * w"
      by (auto simp: grid_shape_def in_grid_def)
    have xl: "nat x' < length (m ! nat y)" using x' rl by simp
    have "?m' ! nat y' ! nat x' = (if nat y' = nat y \<and> nat x' = nat x then v else m ! nat y' ! nat x')"
      using y y' xl by (auto simp: nth_list_update)
    moreover have "nat y' = nat y \<and> nat x' = nat x \<longleftrightarrow> c' = Cell x y"
      using x y x' y' cc by auto
    ultimately show ?thesis
      using maze_get_nth [OF sh' c' [unfolded cc]] maze_get_nth [OF sh c' [unfolded cc]] cc
      by simp
  qed
  with set sh' show ?thesis by blast
qed

lemma pop_at_distinct:
  assumes "distinct xs" "k < length xs"
  shows "distinct (pop_at xs k) \<and> set (pop_at xs k) = set xs - {xs ! k}"
proof -
  have xs: "xs = take k xs @ xs ! k # drop (Suc k) xs"
    using assms(2) by (rule id_take_nth_drop)
  have "distinct (take k xs @ xs ! k # drop (Suc k) xs)"
    using assms(1) xs by simp
  then have d: "distinct (take k xs @ drop (Suc k) xs)"
    and n: "xs ! k \<notin> set (take k xs @ drop (Suc k) xs)"
    by auto
  have "set xs = insert (xs ! k) (set (take k xs @ drop (Suc k) xs))"
    by (subst xs) auto
  with d n show ?thesis by (auto simp: pop_at_def)
qed

lemma length_pop_at: "k < length xs \<Longrightarrow> length (pop_at xs k) = length xs - 1"
  by (auto simp: pop_at_def)

lemma side_cells_logical:
  assumes "is_candidate w h wall"
  shows "is_logical w h (fst (side_cells wall)) \<and> is_logical w h (snd (side_cells wall))"
proof (cases "cell_x wall mod 2 = 1")
  case True
  with assms have "cell_y wall mod 2 = 0" "0 < cell_y wall" "cell_y wall < 2 * h"
    "0 < cell_x wall" "cell_x wall < 2 * w"
    by (auto simp: is_candidate_def)
  then show ?thesis using True
    by (simp add: side_cells_def is_logical_def) presburger
next
  case False
  with assms have "cell_x wall mod 2 = 0" "cell_y wall mod 2 = 1" "0 < cell_y wall" "cell_y wall < 2 * h"
    "0 < cell_x wall" "cell_x wall < 2 * w"
    by (auto simp: is_candidate_def)
  then show ?thesis using False
    by (simp add: side_cells_def is_logical_def) presburger
qed

lemma candidate_in_grid: "is_candidate w h c \<Longrightarrow> in_grid w h c"
  by (auto simp: is_candidate_def in_grid_def)

lemma maze_set_cell:
  assumes "grid_shape w h m" "in_grid w h c"
  shows "\<exists>m'. maze_set m (cell_x c) (cell_y c) v = Inr m' \<and> grid_shape w h m'
           \<and> (\<forall>c'. in_grid w h c' \<longrightarrow>
                 maze_get m' (cell_x c') (cell_y c')
                   = (if c' = c then Inr v else maze_get m (cell_x c') (cell_y c')))"
  using maze_set_in_grid [OF assms(1), of "cell_x c" "cell_y c" v] assms(2) by simp

subsection \<open>One iteration of the loop\<close>

lemma loop_body_inv:
  assumes inv: "maze_inv w h s" and i: "0 \<le> i" "i < int (length (removable_walls s))"
  shows "\<exists>s'. loop_body i s = Inr s' \<and> maze_inv w h s'
     \<and> (if wall_connected w (disjoint_set (self_obj s)) (removable_walls s ! nat i)
        then removable_walls s' = removable_walls s \<and> removed s' = removed s
             \<and> maze (self_obj s') = maze (self_obj s)
             \<and> set_count (disjoint_set (self_obj s')) = set_count (disjoint_set (self_obj s))
        else removable_walls s' = pop_at (removable_walls s) (nat i)
             \<and> removed s' = removed s @ [removable_walls s ! nat i]
             \<and> maze_set (maze (self_obj s)) (cell_x (removable_walls s ! nat i))
                  (cell_y (removable_walls s ! nat i)) CELL_PASSAGE = Inr (maze (self_obj s'))
             \<and> set_count (disjoint_set (self_obj s')) = set_count (disjoint_set (self_obj s)) - 1)"
proof -
  define wall where "wall = removable_walls s ! nat i"
  define c1 where "c1 = fst (side_cells wall)"
  define c2 where "c2 = snd (side_cells wall)"
  let ?ds = "disjoint_set (self_obj s)"
  let ?p = "parent ?ds"
  let ?i1 = "logical_index w c1" and ?i2 = "logical_index w c2"
  have sc: "side_cells wall = (c1, c2)" by (simp add: c1_def c2_def)
  have k: "py_index (removable_walls s) i = Inr (nat i)" using i by (rule py_index_inside)
  have kl: "nat i < length (removable_walls s)" using i by simp
  then have wmem: "wall \<in> set (removable_walls s)" by (simp add: wall_def)
  from inv have dsinv: "ds_inv w h ?ds" and sh: "grid_shape w h (maze (self_obj s))"
    and dist: "distinct (removable_walls s)" "distinct (removed s)"
    and disj: "set (removable_walls s) \<inter> set (removed s) = {}"
    and un: "set (removable_walls s) \<union> set (removed s) = {c. is_candidate w h c}"
    and content: "\<And>c. in_grid w h c \<Longrightarrow> cell_state s c =
             Inr (if (cell_x c mod 2 = 1 \<and> cell_y c mod 2 = 1) \<or> c \<in> set (removed s)
                  then CELL_PASSAGE else CELL_WALL)"
    and conn: "\<And>v. v \<in> set (removed s) \<Longrightarrow> wall_connected w ?ds v"
    and cnt: "int (length (removed s)) = w * h - set_count ?ds"
    and dims: "maze_width (self_obj s) = 2 * w + 1" "maze_height (self_obj s) = 2 * h + 1"
    by (auto simp: maze_inv_def)
  have cand: "is_candidate w h wall" using wmem un by blast
  then have l1: "is_logical w h c1" and l2: "is_logical w h c2"
    using side_cells_logical [of w h wall] by (simp_all add: c1_def c2_def)
  from ds_find_inv [OF dsinv l1] obtain ds1
    where f1: "ds_find ?ds c1 = Inr (rep ?p ?i1, ds1)" and inv1: "ds_inv w h ds1"
      and sc1: "set_count ds1 = set_count ?ds"
      and rep1: "\<forall>j<nat (w * h). rep (parent ds1) j = rep ?p j"
    by blast
  from ds_find_inv [OF inv1 l2] obtain ds2
    where f2: "ds_find ds1 c2 = Inr (rep (parent ds1) ?i2, ds2)" and inv2: "ds_inv w h ds2"
      and sc2: "set_count ds2 = set_count ds1"
      and rep2: "\<forall>j<nat (w * h). rep (parent ds2) j = rep (parent ds1) j"
    by blast
  have i1l: "?i1 < nat (w * h)" and i2l: "?i2 < nat (w * h)"
    using l1 l2 by (auto intro: logical_index_less)
  have r2: "rep (parent ds1) ?i2 = rep ?p ?i2" using rep1 i2l by simp
  have reps2: "\<forall>j<nat (w * h). rep (parent ds2) j = rep ?p j" using rep1 rep2 by simp
  have wc: "wall_connected w ?ds wall \<longleftrightarrow> rep ?p ?i1 = rep ?p ?i2"
    by (simp add: wall_connected_def c1_def c2_def)
  have logical_conn: "wall_connected w ds' v"
    if "v \<in> set (removed s)"
      and "\<forall>j<nat (w * h). rep (parent ds') j = f (rep ?p j)" for ds' v f
  proof -
    from that(1) un have "is_candidate w h v" by blast
    then have "is_logical w h (fst (side_cells v))" "is_logical w h (snd (side_cells v))"
      using side_cells_logical by auto
    then have "logical_index w (fst (side_cells v)) < nat (w * h)"
      "logical_index w (snd (side_cells v)) < nat (w * h)"
      by (auto intro: logical_index_less)
    with that(2) conn [OF that(1)] show ?thesis by (simp add: wall_connected_def)
  qed
  show ?thesis
  proof (cases "rep ?p ?i1 = rep ?p ?i2")
    case True
    let ?s' = "s\<lparr>self_obj := (self_obj s)\<lparr>disjoint_set := ds2\<rparr>\<rparr>"
    have body: "loop_body i s = Inr ?s'"
      using True by (simp add: loop_body_def k wall_def [symmetric] sc f1 f2 r2)
    have "wall_connected w ds2 v" if "v \<in> set (removed s)" for v
      using logical_conn [OF that, of ds2 "\<lambda>r. r"] reps2 by simp
    then have "maze_inv w h ?s'"
      using inv inv2 sc1 sc2 by (simp add: maze_inv_def cell_state_def)
    with body True wc show ?thesis
      using sc1 sc2 by (simp add: wall_def)
  next
    case False
    obtain m' where ms: "maze_set (maze (self_obj s)) (cell_x wall) (cell_y wall) CELL_PASSAGE = Inr m'"
      and sh': "grid_shape w h m'"
      and get': "\<And>c'. in_grid w h c' \<Longrightarrow> maze_get m' (cell_x c') (cell_y c')
                   = (if c' = wall then Inr CELL_PASSAGE
                      else maze_get (maze (self_obj s)) (cell_x c') (cell_y c'))"
      using maze_set_cell [OF sh candidate_in_grid [OF cand], of CELL_PASSAGE] by blast
    from ds_union_inv [OF inv2 l1 l2] reps2 i1l i2l False
    obtain ds3 c r where u: "ds_union ds2 c1 c2 = Inr (True, ds3)" and inv3: "ds_inv w h ds3"
      and sc3: "set_count ds3 = set_count ds2 - 1"
      and cr: "c \<noteq> r" "{c, r} = {rep ?p ?i1, rep ?p ?i2}"
      and rep3: "\<forall>j<nat (w * h). rep (parent ds3) j = (if rep ?p j = c then r else rep ?p j)"
      by auto
    let ?s' = "s\<lparr>self_obj := (self_obj s)\<lparr>maze := m', disjoint_set := ds3\<rparr>,
                  removable_walls := pop_at (removable_walls s) (nat i),
                  removed := removed s @ [wall]\<rparr>"
    have "max (2 * w + 1) (2 * h + 1) \<noteq> 0" "2 * w + 1 \<noteq> 0" "2 * h + 1 \<noteq> 0"
      by presburger+
    then have paint: "draw_maze ((self_obj s)\<lparr>maze := m', disjoint_set := ds3\<rparr>) = Inr ()"
      "animation_delay ((self_obj s)\<lparr>maze := m', disjoint_set := ds3\<rparr>) = Inr ()"
      using dims by (simp_all add: draw_maze_def animation_delay_def py_div_def)
    have body: "loop_body i s = Inr ?s'"
      using False
      by (simp add: loop_body_def k wall_def [symmetric] sc f1 f2 r2 ms u paint Let_def)
    from pop_at_distinct [OF dist(1) kl]
    have pd: "distinct (pop_at (removable_walls s) (nat i))"
      and ps: "set (pop_at (removable_walls s) (nat i)) = set (removable_walls s) - {wall}"
      by (auto simp: wall_def)
    have wnr: "wall \<notin> set (removed s)" using wmem disj by blast
    have old: "wall_connected w ds3 v" if "v \<in> set (removed s)" for v
      using logical_conn [OF that, of ds3 "\<lambda>x. if x = c then r else x"] rep3 by simp
    have new: "wall_connected w ds3 wall"
    proof -
      have "rep (parent ds3) ?i1 = r" "rep (parent ds3) ?i2 = r"
        using rep3 i1l i2l cr by (auto simp: doubleton_eq_iff)
      then show ?thesis by (simp add: wall_connected_def c1_def c2_def)
    qed
    have content': "cell_state ?s' c' =
             Inr (if (cell_x c' mod 2 = 1 \<and> cell_y c' mod 2 = 1) \<or> c' \<in> set (removed s @ [wall])
                  then CELL_PASSAGE else CELL_WALL)" if "in_grid w h c'" for c'
      using get' [OF that] content [OF that] by (auto simp: cell_state_def)
    have "maze_inv w h ?s'"
      unfolding maze_inv_def
      using dims sh' pd ps dist(2) wnr disj un wmem content' inv3 old new cnt sc1 sc2 sc3
      by auto
    with body False wc ms show ?thesis
      using sc1 sc2 sc3 by (simp add: wall_def)
  qed
qed

subsection \<open>The invariant along the loop\<close>

lemma start_inv:
  assumes "1 \<le> w" "1 \<le> h"
  shows "maze_inv w h (start_state (new_maze w h) (candidate_walls w h))"
proof -
  have pos: "1 \<le> w * h" using mult_mono [of 1 w 1 h] assms by simp
  have shape: "grid_shape w h (maze (new_maze w h))"
    by (auto simp: grid_shape_def new_maze_def rows_init_maze mult.commute)
  have content: "cell_state (start_state (new_maze w h) (candidate_walls w h)) c
      = Inr (if cell_x c mod 2 = 1 \<and> cell_y c mod 2 = 1 then CELL_PASSAGE else CELL_WALL)"
    if "in_grid w h c" for c
    using maze_get_new_maze [of w h "cell_x c" "cell_y c"] that
    by (simp add: cell_state_def start_state_def)
  have "uf_inv [0..<nat (w * h)] (int (nat (w * h)))"
    using pos by (intro uf_inv_init) simp
  then have ds: "ds_inv w h (DisjointSet_init w h)"
    using pos by (simp add: ds_inv_def DisjointSet_init_def)
  show ?thesis
    unfolding maze_inv_def
    using shape content ds distinct_candidate_walls [of w h] set_candidate_walls [of w h]
    by (simp add: start_state_def new_maze_def DisjointSet_init_def)
qed

lemma randint_index:
  "xs \<noteq> [] \<Longrightarrow>
   randint 0 (int (length xs) - 1) (r # rs) = Some (Inr (int (r mod length xs), rs))"
proof -
  assume "xs \<noteq> []"
  then have "0 < length xs" by simp
  then have "nat (int (length xs) - 1 - 0 + 1) = length xs" by simp
  then show ?thesis using \<open>0 < length xs\<close> by simp
qed

lemma kruskal_steps_inv:
  "maze_inv w h s \<Longrightarrow>
   \<exists>s' ys. kruskal_steps rs s = Inr s' \<and> maze_inv w h s' \<and> removed s' = removed s @ ys"
proof (induction rs arbitrary: s)
  case Nil
  then show ?case by simp
next
  case (Cons r rs)
  show ?case
  proof (cases "loop_cond s")
    case False
    then show ?thesis using Cons.prems by simp
  next
    case True
    then have ne: "removable_walls s \<noteq> []" by (simp add: loop_cond_def)
    let ?i = "int (r mod length (removable_walls s))"
    have "0 \<le> ?i" "?i < int (length (removable_walls s))" using ne by auto
    from loop_body_inv [OF Cons.prems this] obtain s1
      where b: "loop_body ?i s = Inr s1" and inv1: "maze_inv w h s1"
        and r1: "removed s1 = removed s \<or> removed s1 = removed s @ [removable_walls s ! nat ?i]"
      by (auto split: if_splits)
    from Cons.IH [OF inv1] obtain s' ys
      where "kruskal_steps rs s1 = Inr s'" "maze_inv w h s'" "removed s' = removed s1 @ ys"
      by blast
    moreover have "kruskal_steps (r # rs) s = kruskal_steps rs s1"
      using True b randint_index [OF ne, of r rs] by (simp del: randint.simps)
    ultimately show ?thesis using r1 by auto
  qed
qed

lemma kruskal_loop_steps:
  "kruskal_loop rs s = Some (Inr (s', rs')) \<Longrightarrow>
   kruskal_steps rs s = Inr s' \<and> \<not> loop_cond s'"
proof (induction rs arbitrary: s)
  case Nil
  then show ?case by (auto split: if_splits)
next
  case (Cons r rs)
  show ?case
  proof (cases "loop_cond s")
    case False
    with Cons.prems have "s' = s" "rs' = r # rs" by auto
    then show ?thesis using False by simp
  next
    case True
    then have ne: "removable_walls s \<noteq> []" by (simp add: loop_cond_def)
    let ?i = "int (r mod length (removable_walls s))"
    note ri = randint_index [OF ne, of r rs]
    from Cons.prems True obtain s1 where b: "loop_body ?i s = Inr s1"
      and l: "kruskal_loop rs s1 = Some (Inr (s', rs'))"
      by (auto simp: ri simp del: randint.simps split: sum.splits)
    from Cons.IH [OF l] show ?thesis
      using True b ri by (simp del: randint.simps)
  qed
qed

lemma kruskal_loop_no_error:
  "maze_inv w h s \<Longrightarrow> kruskal_loop rs s \<noteq> Some (Inl e)"
proof (induction rs arbitrary: s)
  case Nil
  then show ?case by (auto split: if_splits)
next
  case (Cons r rs)
  show ?case
  proof (cases "loop_cond s")
    case False
    then show ?thesis by simp
  next
    case True
    then have ne: "removable_walls s \<noteq> []" by (simp add: loop_cond_def)
    let ?i = "int (r mod length (removable_walls s))"
    have "0 \<le> ?i" "?i < int (length (removable_walls s))" using ne by auto
    from loop_body_inv [OF Cons.prems this] obtain s1
      where b: "loop_body ?i s = Inr s1" and inv1: "maze_inv w h s1"
      by blast
    have "kruskal_loop (r # rs) s = kruskal_loop rs s1"
      using True b randint_index [OF ne, of r rs] by (simp del: randint.simps)
    with Cons.IH [OF inv1] show ?thesis by simp
  qed
qed

subsection \<open>When the loop stops\<close>

lemma logical_index_grid:
  "0 \<le> w \<Longrightarrow> logical_index w (Cell (2 * int i + 1) (2 * int j + 1)) = j * nat w + i"
proof -
  assume "0 \<le> w"
  then have "int j * w + int i = int (j * nat w + i)" by simp
  then show ?thesis by (simp add: logical_index_def del: of_nat_add of_nat_mult)
qed

lemma all_connected:
  assumes conn: "\<And>c. is_candidate w h c \<Longrightarrow> wall_connected w ds c" and w: "1 \<le> w"
    and k: "k < nat (w * h)"
  shows "rep (parent ds) k = rep (parent ds) 0"
proof -
  let ?p = "parent ds"
  define W where "W = nat w"
  define H where "H = nat h"
  have Wpos: "0 < W" and wW: "w = int W" using w by (simp_all add: W_def)
  have w0: "0 \<le> w" using w by simp
  have horiz: "rep ?p (j * W + Suc i) = rep ?p (j * W + i)" if "Suc i < W" "j < H" for i j
  proof -
    let ?c = "Cell (2 * int i + 2) (2 * int j + 1)"
    have "is_candidate w h ?c"
      using that by (auto simp: is_candidate_def W_def H_def)
    moreover have "side_cells ?c
        = (Cell (2 * int i + 1) (2 * int j + 1), Cell (2 * int (Suc i) + 1) (2 * int j + 1))"
      by (simp add: side_cells_def)
    ultimately have "rep ?p (logical_index w (Cell (2 * int i + 1) (2 * int j + 1)))
        = rep ?p (logical_index w (Cell (2 * int (Suc i) + 1) (2 * int j + 1)))"
      using conn [of ?c] by (simp only: wall_connected_def fst_conv snd_conv)
    then show ?thesis
      by (simp only: logical_index_grid [OF w0] W_def [symmetric])
  qed
  have vert: "rep ?p (Suc j * W + i) = rep ?p (j * W + i)" if "i < W" "Suc j < H" for i j
  proof -
    let ?c = "Cell (2 * int i + 1) (2 * int j + 2)"
    have "is_candidate w h ?c"
      using that by (auto simp: is_candidate_def W_def H_def)
    moreover have "side_cells ?c
        = (Cell (2 * int i + 1) (2 * int j + 1), Cell (2 * int i + 1) (2 * int (Suc j) + 1))"
      by (simp add: side_cells_def)
    ultimately have "rep ?p (logical_index w (Cell (2 * int i + 1) (2 * int j + 1)))
        = rep ?p (logical_index w (Cell (2 * int i + 1) (2 * int (Suc j) + 1)))"
      using conn [of ?c] by (simp only: wall_connected_def fst_conv snd_conv)
    then show ?thesis
      by (simp only: logical_index_grid [OF w0] W_def [symmetric])
  qed
  have row0: "rep ?p (j * W) = rep ?p 0" if "j < H" for j
    using that
  proof (induction j)
    case 0
    then show ?case by simp
  next
    case (Suc j)
    then show ?case using vert [of 0 j] Wpos by simp
  qed
  have cell: "rep ?p (j * W + i) = rep ?p 0" if "i < W" "j < H" for i j
    using that(1)
  proof (induction i)
    case 0
    then show ?case using row0 [OF that(2)] by simp
  next
    case (Suc i)
    then show ?case using horiz [of i j] that(2) by simp
  qed
  have "nat (w * h) = H * W" using nat_mult_distrib [OF w0, of h] by (simp add: W_def H_def)
  with k have kk: "k < H * W" by simp
  then have "k div W < H" using Wpos by (simp add: less_mult_imp_div_less)
  moreover have "k mod W < W" using Wpos by simp
  ultimately have "rep ?p (k div W * W + k mod W) = rep ?p 0" by (intro cell)
  then show ?thesis by simp
qed

lemma single_set:
  assumes inv: "ds_inv w h ds" and conn: "\<And>c. is_candidate w h c \<Longrightarrow> wall_connected w ds c"
    and w: "1 \<le> w" and h: "1 \<le> h"
  shows "set_count ds = 1"
proof -
  let ?p = "parent ds"
  from inv have uf: "uf_inv ?p (set_count ds)" and len: "length ?p = nat (w * h)"
    by (auto simp: ds_inv_def)
  have pos: "0 < nat (w * h)" using mult_mono [of 1 w 1 h] w h by simp
  have "roots ?p = {rep ?p 0}"
  proof (rule set_eqI)
    fix r
    show "r \<in> roots ?p \<longleftrightarrow> r \<in> {rep ?p 0}"
    proof
      assume r: "r \<in> roots ?p"
      then have "r < nat (w * h)" using len by (simp add: roots_def)
      from all_connected [of w h ds, OF conn w this] rep_of_root [OF uf r]
      show "r \<in> {rep ?p 0}" by simp
    next
      assume "r \<in> {rep ?p 0}"
      then show "r \<in> roots ?p" using rep_is_root [OF uf, of 0] pos len by simp
    qed
  qed
  then show ?thesis using uf_inv_card [OF uf] by simp
qed

lemma loop_exit_single_set:
  assumes inv: "maze_inv w h s" and stop: "\<not> loop_cond s" and w: "1 \<le> w" and h: "1 \<le> h"
  shows "set_count (disjoint_set (self_obj s)) = 1"
proof -
  let ?ds = "disjoint_set (self_obj s)"
  from inv have dsinv: "ds_inv w h ?ds" by (simp add: maze_inv_def)
  then have "uf_inv (parent ?ds) (set_count ?ds)" by (simp add: ds_inv_def)
  then have ge: "1 \<le> set_count ?ds" by (simp add: uf_inv_def)
  show ?thesis
  proof (cases "removable_walls s = []")
    case False
    with stop ge show ?thesis by (simp add: loop_cond_def)
  next
    case True
    have "wall_connected w ?ds c" if "is_candidate w h c" for c
      using inv True that by (auto simp: maze_inv_def)
    with dsinv show ?thesis using w h by (rule single_set)
  qed
qed

text \<open>While the loop runs, some candidate still separates two components, and sampling
  it makes progress; so from every state of a run some draws end the loop.\<close>

lemma unconnected_candidate:
  assumes inv: "maze_inv w h s" and run: "loop_cond s" and w: "1 \<le> w" and h: "1 \<le> h"
  shows "\<exists>k<length (removable_walls s).
           \<not> wall_connected w (disjoint_set (self_obj s)) (removable_walls s ! k)"
proof (rule ccontr)
  let ?ds = "disjoint_set (self_obj s)"
  assume "\<not> ?thesis"
  then have rest: "wall_connected w ?ds c" if "c \<in> set (removable_walls s)" for c
    using that by (auto simp: in_set_conv_nth)
  from inv have dsinv: "ds_inv w h ?ds"
    and un: "set (removable_walls s) \<union> set (removed s) = {c. is_candidate w h c}"
    and joined: "\<And>c. c \<in> set (removed s) \<Longrightarrow> wall_connected w ?ds c"
    by (auto simp: maze_inv_def)
  have "wall_connected w ?ds c" if "is_candidate w h c" for c
  proof -
    from that un have "c \<in> set (removable_walls s) \<or> c \<in> set (removed s)" by blast
    then show ?thesis using rest joined by blast
  qed
  with dsinv have "set_count ?ds = 1" using w h by (rule single_set)
  with run show False by (simp add: loop_cond_def)
qed

lemma kruskal_loop_can_stop:
  assumes w: "1 \<le> w" and h: "1 \<le> h"
  shows "maze_inv w h s \<Longrightarrow> nat (set_count (disjoint_set (self_obj s))) = n \<Longrightarrow>
         \<exists>rs s'. kruskal_loop rs s = Some (Inr (s', []))"
proof (induction n arbitrary: s rule: less_induct)
  case (less n)
  show ?case
  proof (cases "loop_cond s")
    case False
    then have "kruskal_loop [] s = Some (Inr (s, []))" by simp
    then show ?thesis by blast
  next
    case True
    then have ne: "removable_walls s \<noteq> []" and big: "1 < set_count (disjoint_set (self_obj s))"
      by (simp_all add: loop_cond_def)
    from unconnected_candidate [OF less.prems(1) True w h] obtain k
      where k: "k < length (removable_walls s)"
        and nc: "\<not> wall_connected w (disjoint_set (self_obj s)) (removable_walls s ! k)"
      by blast
    have "0 \<le> int k" "int k < int (length (removable_walls s))" using k by simp_all
    from loop_body_inv [OF less.prems(1) this] nc obtain s1
      where b: "loop_body (int k) s = Inr s1" and inv1: "maze_inv w h s1"
        and sc: "set_count (disjoint_set (self_obj s1)) = set_count (disjoint_set (self_obj s)) - 1"
      by auto
    have "nat (set_count (disjoint_set (self_obj s1))) < n"
      using sc big less.prems(2) by simp
    from less.IH [OF this inv1 refl] obtain rs s'
      where l: "kruskal_loop rs s1 = Some (Inr (s', []))"
      by blast
    have "k mod length (removable_walls s) = k" using k by simp
    then have "kruskal_loop (k # rs) s = kruskal_loop rs s1"
      using True b randint_index [OF ne, of k rs] by (simp del: randint.simps)
    with l show ?thesis by metis
  qed
qed

subsection \<open>The generation as a whole\<close>

lemma generation_steps_inv:
  assumes "1 \<le> w" "1 \<le> h"
  shows "\<exists>s. generation_steps (new_maze w h) rs = Inr s \<and> maze_inv w h s"
  using kruskal_steps_inv [OF start_inv [OF assms], of rs]
  by (auto simp: generation_steps_def initial_removable_walls_new_maze)

lemma generation_steps_invD:
  assumes "1 \<le> w" "1 \<le> h" "generation_steps (new_maze w h) rs = Inr s"
  shows "maze_inv w h s"
  using generation_steps_inv [OF assms(1,2), of rs] assms(3) by auto

lemma generation_loop_inv:
  assumes "1 \<le> w" "1 \<le> h" "generation_loop (new_maze w h) rs = Some (Inr (s, rs'))"
  shows "maze_inv w h s \<and> \<not> loop_cond s"
proof -
  from assms(3) have l: "kruskal_loop rs (start_state (new_maze w h) (candidate_walls w h))
      = Some (Inr (s, rs'))"
    by (simp add: generation_loop_def initial_removable_walls_new_maze)
  from kruskal_loop_steps [OF l] kruskal_steps_inv [OF start_inv [OF assms(1,2)], of rs]
  show ?thesis by auto
qed

lemma generation_loop_no_error:
  assumes "1 \<le> w" "1 \<le> h"
  shows "generation_loop (new_maze w h) rs \<noteq> Some (Inl e)"
  using kruskal_loop_no_error [OF start_inv [OF assms]]
  by (simp add: generation_loop_def initial_removable_walls_new_maze)

lemma generation_can_stop:
  assumes "1 \<le> w" "1 \<le> h"
  shows "\<exists>rs s. generation_loop (new_maze w h) rs = Some (Inr (s, []))"
  using kruskal_loop_can_stop [OF assms start_inv [OF assms] refl]
  by (simp add: generation_loop_def initial_removable_walls_new_maze)

text \<open>
  Claim C1. For every \<open>width \<ge> 1\<close> and \<open>height \<ge> 1\<close> and every sequence of draws,
  when the generation loop terminates, \<open>set_count\<close> of the disjoint-set structure is 1,
  and \<open>find\<close> gives one and the same representative for all logical cells: they form a
  single component. The loop is randomised and keeps a sampled wall whose sides are already connected, so
  it need not terminate for every sequence of draws; the first part of the theorem says
  that for every such size there are draws for which it does.
\<close>

theorem loop_exit_set_count_one:
  "1 \<le> width \<Longrightarrow> 1 \<le> height \<Longrightarrow>
     (\<exists>rs0 s0. generation_loop (new_maze width height) rs0 = Some (Inr (s0, [])))
     \<and> (generation_loop (new_maze width height) rs = Some (Inr (s, rs')) \<longrightarrow>
           set_count (disjoint_set (self_obj s)) = 1
           \<and> (\<exists>r. \<forall>c. is_logical width height c \<longrightarrow>
                  (\<exists>ds'. ds_find (disjoint_set (self_obj s)) c = Inr (r, ds'))))"
proof -
  assume w: "1 \<le> width" and h: "1 \<le> height"
  have "set_count (disjoint_set (self_obj s)) = 1
        \<and> (\<exists>r. \<forall>c. is_logical width height c \<longrightarrow>
               (\<exists>ds'. ds_find (disjoint_set (self_obj s)) c = Inr (r, ds')))"
    if l: "generation_loop (new_maze width height) rs = Some (Inr (s, rs'))"
  proof -
    let ?ds = "disjoint_set (self_obj s)"
    from generation_loop_inv [OF w h l] have inv: "maze_inv width height s" "\<not> loop_cond s"
      by auto
    then have one: "set_count ?ds = 1" using w h by (rule loop_exit_single_set)
    from inv have dsinv: "ds_inv width height ?ds" by (simp add: maze_inv_def)
    then have uf: "uf_inv (parent ?ds) (set_count ?ds)"
      and len: "length (parent ?ds) = nat (width * height)"
      by (simp_all add: ds_inv_def)
    from uf_inv_card [OF uf] one have "card (roots (parent ?ds)) = 1" by simp
    then obtain r where r: "roots (parent ?ds) = {r}" by (rule card_1_singletonE)
    have "\<exists>ds'. ds_find ?ds c = Inr (r, ds')" if c: "is_logical width height c" for c
    proof -
      have "rep (parent ?ds) (logical_index width c) \<in> roots (parent ?ds)"
        using uf logical_index_less [OF c] len by (intro rep_is_root) simp_all
      with r have "rep (parent ?ds) (logical_index width c) = r" by simp
      with ds_find_inv [OF dsinv c] show ?thesis by auto
    qed
    with one show ?thesis by blast
  qed
  with generation_can_stop [OF w h] show ?thesis by blast
qed

theorem loop_exit_set_count_one_witness:
  "(1::int) \<le> 2 \<and> (1::int) \<le> 2
   \<and> (case generation_loop (new_maze 2 2) [0, 0, 0, 5] of
         Some (Inr (s, rs')) \<Rightarrow>
           set_count (disjoint_set (self_obj s)) = 1 \<and> removable_walls s = [Cell 2 3] \<and> rs' = [5]
       | _ \<Rightarrow> False)"
proof -
  have run: "generation_loop (new_maze 2 2) [0, 0, 0, 5] =
     Some (Inr (\<lparr>self_obj =
           \<lparr>maze_width = 5, maze_height = 5,
              maze =
                [[1, 1, 1, 1, 1], [1, 0, 0, 0, 1], [1, 0, 1, 0, 1],
                 [1, 0, 1, 0, 1], [1, 1, 1, 1, 1]],
              disjoint_set =
                \<lparr>ds_width = 2, ds_height = 2, parent = [0, 0, 0, 0],
                   comp_size = [4, 1, 1, 1], set_count = 1\<rparr>\<rparr>,
           removable_walls = [Cell 2 3],
           removed = [Cell 2 1, Cell 1 2, Cell 3 2]\<rparr>,
        [5]))"
    by code_simp
  show ?thesis
    unfolding run using loop_exit_set_count_one [of 2 2 "[0, 0, 0, 5]"] run by simp
qed

lemma card_logical:
  assumes "0 \<le> w"
  shows "card {c. is_logical w h c} = nat (w * h)"
proof -
  let ?f = "\<lambda>(i, j). Cell (2 * int i + 1) (2 * int j + 1)"
  have "{c. is_logical w h c} = ?f ` ({..<nat w} \<times> {..<nat h})"
  proof (rule set_eqI)
    fix c
    show "c \<in> {c. is_logical w h c} \<longleftrightarrow> c \<in> ?f ` ({..<nat w} \<times> {..<nat h})"
    proof
      assume "c \<in> {c. is_logical w h c}"
      then have l: "is_logical w h c" by simp
      define i where "i = nat ((cell_x c - 1) div 2)"
      define j where "j = nat ((cell_y c - 1) div 2)"
      from l have x: "cell_x c mod 2 = 1" "1 \<le> cell_x c" "cell_x c \<le> 2 * w - 1"
        and y: "cell_y c mod 2 = 1" "1 \<le> cell_y c" "cell_y c \<le> 2 * h - 1"
        by (auto simp: is_logical_def)
      have xi: "0 \<le> (cell_x c - 1) div 2" "(cell_x c - 1) div 2 < w"
        "2 * ((cell_x c - 1) div 2) + 1 = cell_x c"
        using x by presburger+
      have yj: "0 \<le> (cell_y c - 1) div 2" "(cell_y c - 1) div 2 < h"
        "2 * ((cell_y c - 1) div 2) + 1 = cell_y c"
        using y by presburger+
      have "cell_x c = 2 * int i + 1" "i < nat w" "cell_y c = 2 * int j + 1" "j < nat h"
        using xi yj by (simp_all add: i_def j_def)
      then have "c = ?f (i, j)" "(i, j) \<in> {..<nat w} \<times> {..<nat h}"
        by (cases c; simp)+
      then show "c \<in> ?f ` ({..<nat w} \<times> {..<nat h})" by blast
    next
      assume "c \<in> ?f ` ({..<nat w} \<times> {..<nat h})"
      then obtain i j where c: "c = Cell (2 * int i + 1) (2 * int j + 1)" and "i < nat w" "j < nat h"
        by auto
      then have "int i < w" "int j < h" by simp_all
      then have "2 * int i + 1 \<le> 2 * w - 1" "2 * int j + 1 \<le> 2 * h - 1"
        "(2 * int i + 1) mod 2 = 1" "(2 * int j + 1) mod 2 = 1"
        by presburger+
      then have "is_logical w h c"
        unfolding is_logical_def c by simp
      then show "c \<in> {c. is_logical w h c}" by simp
    qed
  qed
  moreover have "inj_on ?f ({..<nat w} \<times> {..<nat h})"
    by (auto simp: inj_on_def)
  ultimately have "card {c. is_logical w h c} = card ({..<nat w} \<times> {..<nat h})"
    by (simp add: card_image)
  then show ?thesis using assms by (simp add: nat_mult_distrib)
qed

lemma logical_in_grid: "is_logical w h c \<Longrightarrow> in_grid w h c"
  by (auto simp: is_logical_def in_grid_def)

lemma in_grid_odd_logical:
  "in_grid w h c \<Longrightarrow> cell_x c mod 2 = 1 \<Longrightarrow> cell_y c mod 2 = 1 \<Longrightarrow> is_logical w h c"
  unfolding in_grid_def is_logical_def by presburger

lemma candidate_not_logical: "is_candidate w h c \<Longrightarrow> \<not> is_logical w h c"
  by (auto simp: is_candidate_def is_logical_def)

lemma set_all_cells_inv:
  "maze_inv w h s \<Longrightarrow> set (all_cells (self_obj s)) = {c. in_grid w h c}"
  by (auto simp: set_all_cells maze_inv_def in_grid_def)

lemma passage_iff:
  assumes "maze_inv w h s" "in_grid w h c"
  shows "cell_state s c = Inr CELL_PASSAGE \<longleftrightarrow> is_logical w h c \<or> c \<in> set (removed s)"
proof -
  from assms have "cell_state s c =
      Inr (if (cell_x c mod 2 = 1 \<and> cell_y c mod 2 = 1) \<or> c \<in> set (removed s)
           then CELL_PASSAGE else CELL_WALL)"
    by (simp add: maze_inv_def)
  moreover have "cell_x c mod 2 = 1 \<and> cell_y c mod 2 = 1 \<longleftrightarrow> is_logical w h c"
    using assms(2) in_grid_odd_logical [of w h c] by (auto simp: is_logical_def)
  ultimately show ?thesis by auto
qed

lemma removed_candidates:
  "maze_inv w h s \<Longrightarrow> c \<in> set (removed s) \<Longrightarrow> is_candidate w h c"
  by (auto simp: maze_inv_def)

lemma logical_passages:
  assumes "maze_inv w h s"
  shows "set (filter (is_logical w h) (passage_cells s)) = {c. is_logical w h c}"
  using assms passage_iff [OF assms] logical_in_grid [of w h]
  by (auto simp: passage_cells_def set_all_cells_inv)

lemma other_passages:
  assumes "maze_inv w h s"
  shows "set (filter (\<lambda>c. \<not> is_logical w h c) (passage_cells s)) = set (removed s)"
  using assms passage_iff [OF assms] removed_candidates [OF assms]
    candidate_not_logical [of w h] candidate_in_grid [of w h]
  by (auto simp: passage_cells_def set_all_cells_inv)

lemma distinct_passage_cells: "distinct (passage_cells s)"
  by (simp add: passage_cells_def distinct_all_cells)

text \<open>
  A run need not terminate: a sampled wall whose sides are already connected stays in the
  list, and a state in which such a wall is sampled is reached again by the iteration.
\<close>

lemma kruskal_loop_resume:
  "kruskal_loop rs1 s = None \<Longrightarrow> kruskal_steps rs1 s = Inr s1 \<Longrightarrow>
   kruskal_loop (rs1 @ rs2) s = kruskal_loop rs2 s1"
proof (induction rs1 arbitrary: s)
  case Nil
  then show ?case by simp
next
  case (Cons r rs1)
  from Cons.prems(1) have run: "loop_cond s" by (auto split: if_splits)
  then have ne: "removable_walls s \<noteq> []" by (simp add: loop_cond_def)
  let ?i = "int (r mod length (removable_walls s))"
  note ri = randint_index [OF ne]
  from Cons.prems(1) run obtain s' where b: "loop_body ?i s = Inr s'"
    and l: "kruskal_loop rs1 s' = None"
    by (auto simp: ri simp del: randint.simps split: sum.splits)
  from Cons.prems(2) run b have st: "kruskal_steps rs1 s' = Inr s1"
    by (simp add: ri del: randint.simps)
  from Cons.IH [OF l st] show ?case
    using run b by (simp add: ri del: randint.simps)
qed

lemma same_draw_forever:
  assumes "loop_cond s" "loop_body (int (r mod length (removable_walls s))) s = Inr s"
  shows "kruskal_loop (replicate n r) s = None \<and> kruskal_steps (replicate n r) s = Inr s"
proof (induction n)
  case 0
  then show ?case using assms(1) by simp
next
  case (Suc n)
  from assms(1) have ne: "removable_walls s \<noteq> []" by (simp add: loop_cond_def)
  show ?case
    using assms Suc by (simp add: randint_index [OF ne] del: randint.simps)
qed

lemma stuck_run_3x2:
  "generation_loop (new_maze 3 2) ([0, 1, 1] @ replicate n 2) = None"
proof -
  define S where "S = \<lparr>self_obj =
        \<lparr>maze_width = 7, maze_height = 5,
           maze =
             [[1, 1, 1, 1, 1, 1, 1], [1, 0, 0, 0, 1, 0, 1],
              [1, 0, 1, 0, 1, 1, 1], [1, 0, 1, 0, 1, 0, 1],
              [1, 1, 1, 1, 1, 1, 1]],
           disjoint_set =
             \<lparr>ds_width = 3, ds_height = 2, parent = [0, 0, 2, 0, 0, 5],
                comp_size = [4, 1, 1, 1, 1, 1], set_count = 3\<rparr>\<rparr>,
        removable_walls = [Cell 4 1, Cell 5 2, Cell 2 3, Cell 4 3],
        removed = [Cell 2 1, Cell 1 2, Cell 3 2]\<rparr>"
  let ?s0 = "start_state (new_maze 3 2) (candidate_walls 3 2)"
  have gl: "generation_loop (new_maze 3 2) rs = kruskal_loop rs ?s0" for rs
    by (simp add: generation_loop_def initial_removable_walls_new_maze)
  have gs: "generation_steps (new_maze 3 2) rs = kruskal_steps rs ?s0" for rs
    by (simp add: generation_steps_def initial_removable_walls_new_maze)
  have "generation_loop (new_maze 3 2) [0, 1, 1] = None" by code_simp
  then have l: "kruskal_loop [0, 1, 1] ?s0 = None" by (simp only: gl)
  have "generation_steps (new_maze 3 2) [0, 1, 1] = Inr S" unfolding S_def by code_simp
  then have st: "kruskal_steps [0, 1, 1] ?s0 = Inr S" by (simp only: gs)
  have c: "loop_cond S" unfolding S_def by code_simp
  have "loop_body 2 S = Inr S" unfolding S_def by code_simp
  moreover have "int (2 mod length (removable_walls S)) = 2" by (simp add: S_def)
  ultimately have b: "loop_body (int (2 mod length (removable_walls S))) S = Inr S" by simp
  from same_draw_forever [OF c b, of n] have "kruskal_loop (replicate n 2) S = None" by simp
  with kruskal_loop_resume [OF l st, of "replicate n 2"] show ?thesis by (simp only: gl)
qed

text \<open>
  Claim C2, as amended. For every \<open>width \<ge> 1\<close> and \<open>height \<ge> 1\<close> there are draws for which
  the generation loop terminates; a run whose loop terminates has removed exactly
  \<open>width * height - 1\<close> walls, and the passages of its final grid are the \<open>width * height\<close>
  logical cells at odd/odd coordinates together with exactly the \<open>width * height - 1\<close>
  removed walls, which were candidate walls, and no other cell; and in every state that a
  run passes through, the number of removals is \<open>width * height - set_count\<close>, at most
  \<open>width * height - 1\<close>. The theorem after the witness shows a state of the 3 by 2 maze
  with three removals that the iteration reproduces when the draw is 2, so that the run
  with the draws 0, 1, 1, 2, 2, 2, ... never performs the other two removals and never
  leaves the loop (\<open>stuck_run_3x2\<close>).
\<close>

theorem removals_and_passages_count:
  "1 \<le> width \<Longrightarrow> 1 \<le> height \<Longrightarrow>
     (\<exists>rs0 s0. generation_loop (new_maze width height) rs0 = Some (Inr (s0, [])))
     \<and> (generation_loop (new_maze width height) rs = Some (Inr (s, rs')) \<longrightarrow>
           int (length (removed s)) = width * height - 1
           \<and> int (length (filter (is_logical width height) (passage_cells s))) = width * height
           \<and> int (length (filter (\<lambda>c. \<not> is_logical width height c) (passage_cells s)))
               = width * height - 1
           \<and> set (filter (\<lambda>c. \<not> is_logical width height c) (passage_cells s))
               = set (removed s)
           \<and> list_all (is_candidate width height) (removed s))
     \<and> (generation_steps (new_maze width height) rs = Inr s1 \<longrightarrow>
           int (length (removed s1))
             = width * height - set_count (disjoint_set (self_obj s1))
           \<and> int (length (removed s1)) \<le> width * height - 1)"
proof -
  assume w: "1 \<le> width" and h: "1 \<le> height"
  note ex = generation_can_stop [OF w h]
  have fin: "int (length (removed s)) = width * height - 1
           \<and> int (length (filter (is_logical width height) (passage_cells s))) = width * height
           \<and> int (length (filter (\<lambda>c. \<not> is_logical width height c) (passage_cells s)))
               = width * height - 1
           \<and> set (filter (\<lambda>c. \<not> is_logical width height c) (passage_cells s))
               = set (removed s)
           \<and> list_all (is_candidate width height) (removed s)"
    if l: "generation_loop (new_maze width height) rs = Some (Inr (s, rs'))"
  proof -
    from generation_loop_inv [OF w h l]
    have inv: "maze_inv width height s" and stop: "\<not> loop_cond s"
      by auto
    have one: "set_count (disjoint_set (self_obj s)) = 1"
      using inv stop w h by (rule loop_exit_single_set)
    have a: "int (length (removed s)) = width * height - 1"
      using inv one by (simp add: maze_inv_def)
    have pos: "0 \<le> width * height" using w h by simp
    have "length (filter (is_logical width height) (passage_cells s))
        = card (set (filter (is_logical width height) (passage_cells s)))"
      by (rule distinct_card [symmetric]) (simp add: distinct_passage_cells)
    also have "\<dots> = nat (width * height)"
      unfolding logical_passages [OF inv] using w by (simp add: card_logical)
    finally have b: "int (length (filter (is_logical width height) (passage_cells s)))
        = width * height"
      using pos by simp
    have d: "set (filter (\<lambda>c. \<not> is_logical width height c) (passage_cells s)) = set (removed s)"
      using inv by (rule other_passages)
    have "length (filter (\<lambda>c. \<not> is_logical width height c) (passage_cells s))
        = card (set (filter (\<lambda>c. \<not> is_logical width height c) (passage_cells s)))"
      by (rule distinct_card [symmetric]) (simp add: distinct_passage_cells)
    also have "\<dots> = length (removed s)"
      unfolding d using inv by (intro distinct_card) (simp add: maze_inv_def)
    finally have c: "int (length (filter (\<lambda>c. \<not> is_logical width height c) (passage_cells s)))
           = width * height - 1"
      using a by simp
    have e: "list_all (is_candidate width height) (removed s)"
      using removed_candidates [OF inv] by (simp add: list_all_iff)
    from a b c d e show ?thesis by blast
  qed
  have mid: "int (length (removed s1))
             = width * height - set_count (disjoint_set (self_obj s1))
           \<and> int (length (removed s1)) \<le> width * height - 1"
    if st: "generation_steps (new_maze width height) rs = Inr s1"
  proof -
    have inv: "maze_inv width height s1" using w h st by (rule generation_steps_invD)
    then have cnt: "int (length (removed s1))
        = width * height - set_count (disjoint_set (self_obj s1))"
      by (simp add: maze_inv_def)
    from inv have "ds_inv width height (disjoint_set (self_obj s1))"
      by (simp add: maze_inv_def)
    then have "uf_inv (parent (disjoint_set (self_obj s1))) (set_count (disjoint_set (self_obj s1)))"
      by (simp add: ds_inv_def)
    then have "1 \<le> set_count (disjoint_set (self_obj s1))" by (simp add: uf_inv_def)
    with cnt show ?thesis by simp
  qed
  from ex fin mid show ?thesis by blast
qed

theorem removals_and_passages_count_witness:
  "(1::int) \<le> 2 \<and> (1::int) \<le> 2
   \<and> (case generation_loop (new_maze 2 2) [3, 1, 0] of
         Some (Inr (s, rs')) \<Rightarrow>
           removed s = [Cell 2 3, Cell 1 2, Cell 2 1]
           \<and> length (filter (is_logical 2 2) (passage_cells s)) = 4
           \<and> length (filter (\<lambda>c. \<not> is_logical 2 2 c) (passage_cells s)) = 3
       | _ \<Rightarrow> False)"
proof -
  define S where "S = \<lparr>self_obj =
             \<lparr>maze_width = 5, maze_height = 5,
                maze =
                  [[1, 1, 1, 1, 1], [1, 0, 0, 0, 1], [1, 0, 1, 1, 1],
                   [1, 0, 0, 0, 1], [1, 1, 1, 1, 1]],
                disjoint_set =
                  \<lparr>ds_width = 2, ds_height = 2, parent = [2, 2, 2, 2],
                     comp_size = [1, 1, 4, 1], set_count = 1\<rparr>\<rparr>,
             removable_walls = [Cell 3 2],
             removed = [Cell 2 3, Cell 1 2, Cell 2 1]\<rparr>"
  have run: "generation_loop (new_maze 2 2) [3, 1, 0] = Some (Inr (S, []))"
    unfolding S_def by code_simp
  have rem: "removed S = [Cell 2 3, Cell 1 2, Cell 2 1]" by (simp add: S_def)
  from removals_and_passages_count [of 2 2 "[3, 1, 0]" S "[]"] run
  have "length (filter (is_logical 2 2) (passage_cells S)) = 4"
    "length (filter (\<lambda>c. \<not> is_logical 2 2 c) (passage_cells S)) = 3"
    by simp_all
  with rem have "removed S = [Cell 2 3, Cell 1 2, Cell 2 1]
           \<and> length (filter (is_logical 2 2) (passage_cells S)) = 4
           \<and> length (filter (\<lambda>c. \<not> is_logical 2 2 c) (passage_cells S)) = 3"
    by blast
  then show ?thesis
    by (simp only: run option.case sum.case prod.case) auto
qed

theorem stuck_run_counterexample:
  "(case generation_steps (new_maze 3 2) [0, 1, 1] of
      Inr s \<Rightarrow>
        loop_cond s \<and> loop_body 2 s = Inr s
        \<and> int (length (removed s)) = 3 \<and> int (length (removed s)) \<noteq> 3 * 2 - 1
    | Inl e \<Rightarrow> False)
   \<and> generation_loop (new_maze 3 2) [0, 1, 1, 2, 2, 2, 2, 2, 2, 2, 2] = None"
proof (intro conjI)
  show "case generation_steps (new_maze 3 2) [0, 1, 1] of
      Inr s \<Rightarrow>
        loop_cond s \<and> loop_body 2 s = Inr s
        \<and> int (length (removed s)) = 3 \<and> int (length (removed s)) \<noteq> 3 * 2 - 1
    | Inl e \<Rightarrow> False"
    by code_simp
  show "generation_loop (new_maze 3 2) [0, 1, 1, 2, 2, 2, 2, 2, 2, 2, 2] = None"
    using stuck_run_3x2 [of 8] by (simp add: numeral_eq_Suc)
qed

subsection \<open>The sampled wall\<close>

lemma sides_connected_iff:
  assumes inv: "ds_inv w h ds" and cand: "is_candidate w h wall"
  shows "sides_connected ds wall \<longleftrightarrow> wall_connected w ds wall"
proof -
  let ?c1 = "fst (side_cells wall)" and ?c2 = "snd (side_cells wall)"
  from side_cells_logical [OF cand] have l1: "is_logical w h ?c1" and l2: "is_logical w h ?c2"
    by auto
  from ds_find_inv [OF inv l1] obtain ds1
    where f1: "ds_find ds ?c1 = Inr (rep (parent ds) (logical_index w ?c1), ds1)"
      and inv1: "ds_inv w h ds1"
      and rep1: "\<forall>j<nat (w * h). rep (parent ds1) j = rep (parent ds) j"
    by blast
  from ds_find_inv [OF inv1 l2] obtain ds2
    where f2: "ds_find ds1 ?c2 = Inr (rep (parent ds1) (logical_index w ?c2), ds2)"
    by blast
  have "rep (parent ds1) (logical_index w ?c2) = rep (parent ds) (logical_index w ?c2)"
    using rep1 logical_index_less [OF l2] by simp
  then show ?thesis
    by (simp add: sides_connected_def wall_connected_def f1 f2)
qed

text \<open>
  Claim C3, as amended. In an iteration of the generation loop the sampled wall leaves
  the candidate list exactly when the cells on its two sides were not yet connected:
  then the wall becomes a passage, the union decrements \<open>set_count\<close>, and the wall is
  popped, once. When the two cells are already connected, the iteration changes neither
  the grid nor \<open>set_count\<close>, and the sampled wall stays in the candidate list.
\<close>

theorem sampled_wall_popped_iff_union:
  "1 \<le> width \<Longrightarrow> 1 \<le> height \<Longrightarrow>
   generation_steps (new_maze width height) rs = Inr s \<Longrightarrow>
   0 \<le> i \<Longrightarrow> i < int (length (removable_walls s)) \<Longrightarrow>
   \<exists>s'. loop_body i s = Inr s'
     \<and> (if sides_connected (disjoint_set (self_obj s)) (removable_walls s ! nat i)
        then removable_walls s' = removable_walls s \<and> removed s' = removed s
             \<and> maze (self_obj s') = maze (self_obj s)
             \<and> set_count (disjoint_set (self_obj s')) = set_count (disjoint_set (self_obj s))
        else removable_walls s' = pop_at (removable_walls s) (nat i)
             \<and> removable_walls s ! nat i \<notin> set (removable_walls s')
             \<and> length (removable_walls s') = length (removable_walls s) - 1
             \<and> removed s' = removed s @ [removable_walls s ! nat i]
             \<and> cell_state s' (removable_walls s ! nat i) = Inr CELL_PASSAGE
             \<and> set_count (disjoint_set (self_obj s')) = set_count (disjoint_set (self_obj s)) - 1)"
proof -
  assume w: "1 \<le> width" and h: "1 \<le> height"
    and run: "generation_steps (new_maze width height) rs = Inr s"
    and i: "0 \<le> i" "i < int (length (removable_walls s))"
  let ?wall = "removable_walls s ! nat i"
  have inv: "maze_inv width height s" using w h run by (rule generation_steps_invD)
  have kl: "nat i < length (removable_walls s)" using i by simp
  then have mem: "?wall \<in> set (removable_walls s)" by simp
  then have cand: "is_candidate width height ?wall" using inv by (auto simp: maze_inv_def)
  have conn: "sides_connected (disjoint_set (self_obj s)) ?wall
      \<longleftrightarrow> wall_connected width (disjoint_set (self_obj s)) ?wall"
    using inv cand by (intro sides_connected_iff) (auto simp: maze_inv_def)
  from loop_body_inv [OF inv i] obtain s' where b: "loop_body i s = Inr s'"
    and inv': "maze_inv width height s'"
    and eff: "if wall_connected width (disjoint_set (self_obj s)) ?wall
        then removable_walls s' = removable_walls s \<and> removed s' = removed s
             \<and> maze (self_obj s') = maze (self_obj s)
             \<and> set_count (disjoint_set (self_obj s')) = set_count (disjoint_set (self_obj s))
        else removable_walls s' = pop_at (removable_walls s) (nat i)
             \<and> removed s' = removed s @ [?wall]
             \<and> maze_set (maze (self_obj s)) (cell_x ?wall) (cell_y ?wall) CELL_PASSAGE
                  = Inr (maze (self_obj s'))
             \<and> set_count (disjoint_set (self_obj s')) = set_count (disjoint_set (self_obj s)) - 1"
    by blast
  have dist: "distinct (removable_walls s)" using inv by (simp add: maze_inv_def)
  show ?thesis
  proof (cases "wall_connected width (disjoint_set (self_obj s)) ?wall")
    case True
    with b eff conn show ?thesis by simp
  next
    case False
    with eff have pop: "removable_walls s' = pop_at (removable_walls s) (nat i)"
      and rem: "removed s' = removed s @ [?wall]"
      and sc: "set_count (disjoint_set (self_obj s')) = set_count (disjoint_set (self_obj s)) - 1"
      by auto
    have gone: "?wall \<notin> set (removable_walls s')"
      using pop_at_distinct [OF dist kl] pop by simp
    have len: "length (removable_walls s') = length (removable_walls s) - 1"
      using pop kl by (simp add: length_pop_at)
    have "cell_state s' ?wall = Inr CELL_PASSAGE"
      using passage_iff [OF inv' candidate_in_grid [OF cand]] rem by simp
    with b False conn pop rem sc gone len show ?thesis by simp
  qed
qed

theorem sampled_wall_popped_iff_union_witness:
  "(1::int) \<le> 3 \<and> (1::int) \<le> 2
   \<and> (case generation_steps (new_maze 3 2) [0, 1, 1] of
         Inr s \<Rightarrow>
           (0::int) < int (length (removable_walls s))
           \<and> removable_walls s = [Cell 4 1, Cell 5 2, Cell 2 3, Cell 4 3]
           \<and> \<not> sides_connected (disjoint_set (self_obj s)) (removable_walls s ! 0)
           \<and> (case loop_body 0 s of
                 Inr s' \<Rightarrow> removable_walls s' = [Cell 5 2, Cell 2 3, Cell 4 3]
                          \<and> removed s' = [Cell 2 1, Cell 1 2, Cell 3 2, Cell 4 1]
                          \<and> set_count (disjoint_set (self_obj s')) = 2
               | Inl e \<Rightarrow> False)
       | Inl e \<Rightarrow> False)"
proof -
  define S where "S = \<lparr>self_obj =
        \<lparr>maze_width = 7, maze_height = 5,
           maze =
             [[1, 1, 1, 1, 1, 1, 1], [1, 0, 0, 0, 1, 0, 1],
              [1, 0, 1, 0, 1, 1, 1], [1, 0, 1, 0, 1, 0, 1],
              [1, 1, 1, 1, 1, 1, 1]],
           disjoint_set =
             \<lparr>ds_width = 3, ds_height = 2, parent = [0, 0, 2, 0, 0, 5],
                comp_size = [4, 1, 1, 1, 1, 1], set_count = 3\<rparr>\<rparr>,
        removable_walls = [Cell 4 1, Cell 5 2, Cell 2 3, Cell 4 3],
        removed = [Cell 2 1, Cell 1 2, Cell 3 2]\<rparr>"
  have run: "generation_steps (new_maze 3 2) [0, 1, 1] = Inr S"
    unfolding S_def by code_simp
  have nc: "\<not> sides_connected (disjoint_set (self_obj S)) (Cell 4 1)"
    unfolding S_def by code_simp
  have walls: "removable_walls S = [Cell 4 1, Cell 5 2, Cell 2 3, Cell 4 3]"
    "removed S = [Cell 2 1, Cell 1 2, Cell 3 2]" "set_count (disjoint_set (self_obj S)) = 3"
    by (simp_all add: S_def)
  from sampled_wall_popped_iff_union [OF _ _ run, of 0] nc walls
  obtain s' where "loop_body 0 S = Inr s'"
    "removable_walls s' = [Cell 5 2, Cell 2 3, Cell 4 3]"
    "removed s' = [Cell 2 1, Cell 1 2, Cell 3 2, Cell 4 1]"
    "set_count (disjoint_set (self_obj s')) = 2"
    by (auto simp: pop_at_def)
  then show ?thesis
    unfolding run using nc walls by simp
qed

theorem connected_wall_stays_counterexample:
  "(case generation_steps (new_maze 3 2) [0, 1, 1] of
      Inr s \<Rightarrow>
        loop_cond s \<and> removable_walls s ! 2 = Cell 2 3
        \<and> (case loop_body 2 s of
              Inr s' \<Rightarrow> removable_walls s' = removable_walls s
                       \<and> Cell 2 3 \<in> set (removable_walls s')
            | Inl e \<Rightarrow> False)
    | Inl e \<Rightarrow> False)"
  by code_simp

subsection \<open>The cells given to the disjoint-set structure\<close>

text \<open>
  Claim C6. For every \<open>width \<ge> 1\<close> and \<open>height \<ge> 1\<close> and all draws, the generation never
  fails, in particular not with the out-of-range condition, and in every state that the
  loop passes through, the two cells derived from any candidate wall, which are the cells
  given to \<open>find\<close> and \<open>union\<close>, are logical cells: both coordinates are odd,
  \<open>1 \<le> x \<le> 2 * width - 1\<close> and \<open>1 \<le> y \<le> 2 * height - 1\<close>, and the disjoint-set
  structure accepts them.
\<close>

theorem find_union_cells_logical:
  "1 \<le> width \<Longrightarrow> 1 \<le> height \<Longrightarrow>
     generation_loop (new_maze width height) rs \<noteq> Some (Inl e)
     \<and> (\<exists>s. generation_steps (new_maze width height) rs = Inr s
           \<and> (\<forall>wall \<in> set (removable_walls s).
                 is_logical width height (fst (side_cells wall))
                 \<and> is_logical width height (snd (side_cells wall))
                 \<and> cell_index (disjoint_set (self_obj s)) (fst (side_cells wall)) \<noteq> None
                 \<and> cell_index (disjoint_set (self_obj s)) (snd (side_cells wall)) \<noteq> None
                 \<and> ds_find (disjoint_set (self_obj s)) (fst (side_cells wall)) \<noteq> Inl OutOfRange
                 \<and> ds_find (disjoint_set (self_obj s)) (snd (side_cells wall)) \<noteq> Inl OutOfRange))"
proof -
  assume w: "1 \<le> width" and h: "1 \<le> height"
  from generation_steps_inv [OF w h, of rs] obtain s
    where run: "generation_steps (new_maze width height) rs = Inr s"
      and inv: "maze_inv width height s"
    by blast
  let ?ds = "disjoint_set (self_obj s)"
  from inv have dsinv: "ds_inv width height ?ds" by (simp add: maze_inv_def)
  then have dims: "ds_width ?ds = width" "ds_height ?ds = height" by (simp_all add: ds_inv_def)
  have ok: "cell_index ?ds c \<noteq> None \<and> ds_find ?ds c \<noteq> Inl OutOfRange"
    if "is_logical width height c" for c
    using ds_find_inv [OF dsinv that] that dims by (auto simp: cell_index_iff)
  have "is_logical width height (fst (side_cells wall))
        \<and> is_logical width height (snd (side_cells wall))
        \<and> cell_index ?ds (fst (side_cells wall)) \<noteq> None
        \<and> cell_index ?ds (snd (side_cells wall)) \<noteq> None
        \<and> ds_find ?ds (fst (side_cells wall)) \<noteq> Inl OutOfRange
        \<and> ds_find ?ds (snd (side_cells wall)) \<noteq> Inl OutOfRange"
    if "wall \<in> set (removable_walls s)" for wall
  proof -
    from that inv have "is_candidate width height wall" by (auto simp: maze_inv_def)
    from side_cells_logical [OF this] show ?thesis using ok by blast
  qed
  with run generation_loop_no_error [OF w h, of rs e] show ?thesis by blast
qed

theorem find_union_cells_logical_witness:
  "(1::int) \<le> 2 \<and> (1::int) \<le> 2
   \<and> generation_loop (new_maze 2 2) [3] \<noteq> Some (Inl OutOfRange)
   \<and> (case generation_steps (new_maze 2 2) [3] of
         Inr s \<Rightarrow>
           removable_walls s = [Cell 2 1, Cell 1 2, Cell 3 2]
           \<and> list_all (\<lambda>wall. is_logical 2 2 (fst (side_cells wall))
                               \<and> is_logical 2 2 (snd (side_cells wall)))
                (removable_walls s)
       | Inl e \<Rightarrow> False)"
proof -
  define S where "S = \<lparr>self_obj =
        \<lparr>maze_width = 5, maze_height = 5,
           maze =
             [[1, 1, 1, 1, 1], [1, 0, 1, 0, 1], [1, 1, 1, 1, 1],
              [1, 0, 0, 0, 1], [1, 1, 1, 1, 1]],
           disjoint_set =
             \<lparr>ds_width = 2, ds_height = 2, parent = [0, 1, 2, 2],
                comp_size = [1, 1, 2, 1], set_count = 3\<rparr>\<rparr>,
        removable_walls = [Cell 2 1, Cell 1 2, Cell 3 2], removed = [Cell 2 3]\<rparr>"
  have run: "generation_steps (new_maze 2 2) [3] = Inr S"
    unfolding S_def by code_simp
  have walls: "removable_walls S = [Cell 2 1, Cell 1 2, Cell 3 2]" by (simp add: S_def)
  from find_union_cells_logical [of 2 2 "[3]" OutOfRange]
  show ?thesis unfolding run by (simp add: walls)
qed

subsection \<open>Monotonicity of the grid\<close>

lemma wall_or_passage:
  assumes "maze_inv w h s" "in_grid w h c"
  shows "cell_state s c = Inr CELL_PASSAGE \<or> cell_state s c = Inr CELL_WALL"
  using assms by (simp add: maze_inv_def)

text \<open>
  Claim C9. Throughout a run, for every \<open>width \<ge> 1\<close> and \<open>height \<ge> 1\<close>: between any state
  that the generation passes through and any later state, a passage cell of the grid is
  still a passage, and a cell whose state differs was a wall and has become a passage.
  The shape of the grid does not change. (Start and end selection only reads the grid.)
\<close>

theorem passage_stays_passage:
  "1 \<le> width \<Longrightarrow> 1 \<le> height \<Longrightarrow>
   generation_steps (new_maze width height) rs1 = Inr s1 \<Longrightarrow>
   kruskal_steps rs2 s1 = Inr s2 \<Longrightarrow> in_grid width height c \<Longrightarrow>
     (cell_state s1 c = Inr CELL_PASSAGE \<longrightarrow> cell_state s2 c = Inr CELL_PASSAGE)
     \<and> (cell_state s2 c \<noteq> cell_state s1 c \<longrightarrow>
           cell_state s1 c = Inr CELL_WALL \<and> cell_state s2 c = Inr CELL_PASSAGE)
     \<and> grid_shape width height (maze (self_obj s1))
     \<and> grid_shape width height (maze (self_obj s2))"
proof -
  assume w: "1 \<le> width" and h: "1 \<le> height"
    and r1: "generation_steps (new_maze width height) rs1 = Inr s1"
    and r2: "kruskal_steps rs2 s1 = Inr s2" and c: "in_grid width height c"
  have inv1: "maze_inv width height s1" using w h r1 by (rule generation_steps_invD)
  from kruskal_steps_inv [OF inv1, of rs2] r2 obtain ys
    where inv2: "maze_inv width height s2" and rem: "removed s2 = removed s1 @ ys"
    by auto
  have p1: "cell_state s1 c = Inr CELL_PASSAGE
      \<longleftrightarrow> is_logical width height c \<or> c \<in> set (removed s1)"
    using inv1 c by (rule passage_iff)
  have p2: "cell_state s2 c = Inr CELL_PASSAGE
      \<longleftrightarrow> is_logical width height c \<or> c \<in> set (removed s2)"
    using inv2 c by (rule passage_iff)
  have keep: "cell_state s1 c = Inr CELL_PASSAGE \<longrightarrow> cell_state s2 c = Inr CELL_PASSAGE"
    using p1 p2 rem by auto
  have change: "cell_state s2 c \<noteq> cell_state s1 c \<longrightarrow>
           cell_state s1 c = Inr CELL_WALL \<and> cell_state s2 c = Inr CELL_PASSAGE"
    using keep wall_or_passage [OF inv1 c] wall_or_passage [OF inv2 c] by auto
  have sh1: "grid_shape width height (maze (self_obj s1))"
    using inv1 by (simp add: maze_inv_def)
  have sh2: "grid_shape width height (maze (self_obj s2))"
    using inv2 by (simp add: maze_inv_def)
  from keep change sh1 sh2 show ?thesis by blast
qed

theorem passage_stays_passage_witness:
  "(1::int) \<le> 2 \<and> (1::int) \<le> 2
   \<and> (case generation_steps (new_maze 2 2) [3] of
         Inr s1 \<Rightarrow>
           (case kruskal_steps [1, 0] s1 of
              Inr s2 \<Rightarrow>
                in_grid 2 2 (Cell 2 3) \<and> in_grid 2 2 (Cell 1 2)
                \<and> cell_state s1 (Cell 2 3) = Inr CELL_PASSAGE
                \<and> cell_state s2 (Cell 2 3) = Inr CELL_PASSAGE
                \<and> cell_state s1 (Cell 1 2) = Inr CELL_WALL
                \<and> cell_state s2 (Cell 1 2) = Inr CELL_PASSAGE
            | Inl e \<Rightarrow> False)
       | Inl e \<Rightarrow> False)"
proof -
  define S1 where "S1 = \<lparr>self_obj =
        \<lparr>maze_width = 5, maze_height = 5,
           maze =
             [[1, 1, 1, 1, 1], [1, 0, 1, 0, 1], [1, 1, 1, 1, 1],
              [1, 0, 0, 0, 1], [1, 1, 1, 1, 1]],
           disjoint_set =
             \<lparr>ds_width = 2, ds_height = 2, parent = [0, 1, 2, 2],
                comp_size = [1, 1, 2, 1], set_count = 3\<rparr>\<rparr>,
        removable_walls = [Cell 2 1, Cell 1 2, Cell 3 2], removed = [Cell 2 3]\<rparr>"
  define S2 where "S2 = \<lparr>self_obj =
             \<lparr>maze_width = 5, maze_height = 5,
                maze =
                  [[1, 1, 1, 1, 1], [1, 0, 0, 0, 1], [1, 0, 1, 1, 1],
                   [1, 0, 0, 0, 1], [1, 1, 1, 1, 1]],
                disjoint_set =
                  \<lparr>ds_width = 2, ds_height = 2, parent = [2, 2, 2, 2],
                     comp_size = [1, 1, 4, 1], set_count = 1\<rparr>\<rparr>,
             removable_walls = [Cell 3 2],
             removed = [Cell 2 3, Cell 1 2, Cell 2 1]\<rparr>"
  have run1: "generation_steps (new_maze 2 2) [3] = Inr S1"
    unfolding S1_def by code_simp
  have run2: "kruskal_steps [1, 0] S1 = Inr S2"
    unfolding S1_def S2_def by code_simp
  have g: "in_grid 2 2 (Cell 2 3)" "in_grid 2 2 (Cell 1 2)"
    by (simp_all add: in_grid_def)
  have b1: "cell_state S1 (Cell 2 3) = Inr CELL_PASSAGE"
    unfolding S1_def by code_simp
  have b2: "cell_state S1 (Cell 1 2) = Inr CELL_WALL"
    unfolding S1_def by code_simp
  note before = b1 b2
  have after: "cell_state S2 (Cell 1 2) = Inr CELL_PASSAGE"
    unfolding S2_def by code_simp
  from passage_stays_passage [OF _ _ run1 run2 g(1)] before
  have "cell_state S2 (Cell 2 3) = Inr CELL_PASSAGE" by simp
  with g before after have "in_grid 2 2 (Cell 2 3) \<and> in_grid 2 2 (Cell 1 2)
                \<and> cell_state S1 (Cell 2 3) = Inr CELL_PASSAGE
                \<and> cell_state S2 (Cell 2 3) = Inr CELL_PASSAGE
                \<and> cell_state S1 (Cell 1 2) = Inr CELL_WALL
                \<and> cell_state S2 (Cell 1 2) = Inr CELL_PASSAGE"
    by blast
  then show ?thesis
    by (simp only: run1 run2 sum.case) simp
qed

subsection \<open>The outer border\<close>

lemma border_in_grid: "on_border w h c \<Longrightarrow> in_grid w h c"
  by (auto simp: on_border_def in_grid_def)

lemma border_not_candidate: "on_border w h c \<Longrightarrow> \<not> is_candidate w h c"
  by (auto simp: on_border_def is_candidate_def)

lemma border_not_logical: "on_border w h c \<Longrightarrow> \<not> is_logical w h c"
  unfolding on_border_def is_logical_def by presburger

text \<open>
  Claim C10. For every \<open>width \<ge> 1\<close> and \<open>height \<ge> 1\<close>: the scan puts exactly the interior
  walls with exactly one even coordinate into the candidate list; in every state that
  the generation passes through (the initial one included), every cell of the outer
  border is a wall, the removed cells are candidates, and a grid cell whose state differs
  from the initial grid is such a candidate.
\<close>

theorem border_stays_wall:
  "1 \<le> width \<Longrightarrow> 1 \<le> height \<Longrightarrow>
   generation_steps (new_maze width height) rs = Inr s \<Longrightarrow>
     (\<forall>c. on_border width height c \<longrightarrow> cell_state s c = Inr CELL_WALL)
     \<and> (\<exists>walls. initial_removable_walls (new_maze width height) = Inr walls
           \<and> set walls = {c. is_candidate width height c})
     \<and> set (removable_walls s) \<subseteq> {c. is_candidate width height c}
     \<and> set (removed s) \<subseteq> {c. is_candidate width height c}
     \<and> (\<forall>c. in_grid width height c
             \<and> cell_state s c \<noteq> maze_get (maze (new_maze width height)) (cell_x c) (cell_y c)
           \<longrightarrow> is_candidate width height c \<and> cell_state s c = Inr CELL_PASSAGE)"
proof -
  assume w: "1 \<le> width" and h: "1 \<le> height"
    and run: "generation_steps (new_maze width height) rs = Inr s"
  have inv: "maze_inv width height s" using w h run by (rule generation_steps_invD)
  have a: "cell_state s c = Inr CELL_WALL" if "on_border width height c" for c
  proof -
    have "cell_state s c \<noteq> Inr CELL_PASSAGE"
      using passage_iff [OF inv border_in_grid [OF that]] border_not_logical [OF that]
        border_not_candidate [OF that] removed_candidates [OF inv, of c]
      by auto
    with wall_or_passage [OF inv border_in_grid [OF that]] show ?thesis by simp
  qed
  have b: "\<exists>walls. initial_removable_walls (new_maze width height) = Inr walls
           \<and> set walls = {c. is_candidate width height c}"
    by (simp add: initial_removable_walls_new_maze set_candidate_walls)
  have c: "set (removable_walls s) \<subseteq> {c. is_candidate width height c}"
    "set (removed s) \<subseteq> {c. is_candidate width height c}"
    using inv by (auto simp: maze_inv_def)
  have d: "is_candidate width height c \<and> cell_state s c = Inr CELL_PASSAGE"
    if g: "in_grid width height c"
      and ne: "cell_state s c \<noteq> maze_get (maze (new_maze width height)) (cell_x c) (cell_y c)"
    for c
  proof -
    have init: "maze_get (maze (new_maze width height)) (cell_x c) (cell_y c)
        = Inr (if cell_x c mod 2 = 1 \<and> cell_y c mod 2 = 1 then CELL_PASSAGE else CELL_WALL)"
      using maze_get_new_maze [of width height "cell_x c" "cell_y c"] g by simp
    have now: "cell_state s c =
        Inr (if (cell_x c mod 2 = 1 \<and> cell_y c mod 2 = 1) \<or> c \<in> set (removed s)
             then CELL_PASSAGE else CELL_WALL)"
      using inv g by (simp add: maze_inv_def)
    from ne init now have "c \<in> set (removed s)" by (auto split: if_splits)
    with now removed_candidates [OF inv] show ?thesis by simp
  qed
  from a b c d show ?thesis by blast
qed

theorem border_stays_wall_witness:
  "(1::int) \<le> 2 \<and> (1::int) \<le> 2
   \<and> (case generation_steps (new_maze 2 2) [3, 1, 0] of
         Inr s \<Rightarrow>
           on_border 2 2 (Cell 0 3) \<and> cell_state s (Cell 0 3) = Inr CELL_WALL
           \<and> on_border 2 2 (Cell 4 4) \<and> cell_state s (Cell 4 4) = Inr CELL_WALL
           \<and> removed s = [Cell 2 3, Cell 1 2, Cell 2 1]
       | Inl e \<Rightarrow> False)"
proof -
  define S where "S = \<lparr>self_obj =
             \<lparr>maze_width = 5, maze_height = 5,
                maze =
                  [[1, 1, 1, 1, 1], [1, 0, 0, 0, 1], [1, 0, 1, 1, 1],
                   [1, 0, 0, 0, 1], [1, 1, 1, 1, 1]],
                disjoint_set =
                  \<lparr>ds_width = 2, ds_height = 2, parent = [2, 2, 2, 2],
                     comp_size = [1, 1, 4, 1], set_count = 1\<rparr>\<rparr>,
             removable_walls = [Cell 3 2],
             removed = [Cell 2 3, Cell 1 2, Cell 2 1]\<rparr>"
  have run: "generation_steps (new_maze 2 2) [3, 1, 0] = Inr S"
    unfolding S_def by code_simp
  have bd: "on_border 2 2 (Cell 0 3)" "on_border 2 2 (Cell 4 4)"
    by (simp_all add: on_border_def)
  have rem: "removed S = [Cell 2 3, Cell 1 2, Cell 2 1]" by (simp add: S_def)
  from border_stays_wall [OF _ _ run] bd
  have "cell_state S (Cell 0 3) = Inr CELL_WALL" "cell_state S (Cell 4 4) = Inr CELL_WALL"
    by simp_all
  with bd rem have "on_border 2 2 (Cell 0 3) \<and> cell_state S (Cell 0 3) = Inr CELL_WALL
           \<and> on_border 2 2 (Cell 4 4) \<and> cell_state S (Cell 4 4) = Inr CELL_WALL
           \<and> removed S = [Cell 2 3, Cell 1 2, Cell 2 1]"
    by blast
  then show ?thesis
    by (simp only: run sum.case) simp
qed

subsection \<open>Start and end selection\<close>

lemma randint_range:
  "randint a b rs = Some (Inr (v, rs')) \<Longrightarrow> a \<le> v \<and> v \<le> b"
proof -
  assume r: "randint a b rs = Some (Inr (v, rs'))"
  then have ab: "a \<le> b" by (auto split: if_splits)
  from r obtain k where v: "v = a + int (k mod nat (b - a + 1))"
    by (auto split: if_splits list.splits)
  have "k mod nat (b - a + 1) < nat (b - a + 1)" using ab by simp
  then have "int (k mod nat (b - a + 1)) < b - a + 1" using ab by linarith
  then show ?thesis using v by simp
qed

lemma draw_xy_range:
  "draw_xy obj rs = Some (Inr (c, rs')) \<Longrightarrow>
   1 \<le> cell_x c \<and> cell_x c \<le> maze_width obj - 2
   \<and> 1 \<le> cell_y c \<and> cell_y c \<le> maze_height obj - 2"
proof -
  assume d: "draw_xy obj rs = Some (Inr (c, rs'))"
  then obtain px rs1 py where x: "randint 1 (maze_width obj - 2) rs = Some (Inr (px, rs1))"
    and y: "randint 1 (maze_height obj - 2) rs1 = Some (Inr (py, rs'))"
    and c: "c = Cell px py"
    unfolding draw_xy_def by (auto split: option.splits sum.splits simp del: randint.simps)
  from randint_range [OF x] randint_range [OF y] c show ?thesis by simp
qed

lemma pick_start_passage:
  "pick_start obj rs = Some (Inr (c, rs')) \<Longrightarrow>
   maze_get (maze obj) (cell_x c) (cell_y c) = Inr CELL_PASSAGE
   \<and> 1 \<le> cell_x c \<and> cell_x c \<le> maze_width obj - 2
   \<and> 1 \<le> cell_y c \<and> cell_y c \<le> maze_height obj - 2"
proof (induction obj rs rule: pick_start.induct)
  case (1 obj rs)
  from "1.prems" obtain d rs1 where d: "draw_xy obj rs = Some (Inr (d, rs1))"
    by (subst (asm) pick_start.simps) (auto split: option.splits sum.splits)
  from "1.prems" d obtain v where v: "maze_get (maze obj) (cell_x d) (cell_y d) = Inr v"
    by (subst (asm) pick_start.simps) (auto split: sum.splits)
  show ?case
  proof (cases "v \<noteq> CELL_PASSAGE")
    case True
    then have "pick_start obj rs1 = Some (Inr (c, rs'))"
      using "1.prems" d v by (subst (asm) pick_start.simps) simp
    with "1.IH" [OF d refl refl v True] show ?thesis by simp
  next
    case False
    then have "c = d" using "1.prems" d v by (subst (asm) pick_start.simps) simp
    with False v draw_xy_range [OF d] show ?thesis by simp
  qed
qed

lemma pick_end_passage:
  "pick_end obj start rs = Some (Inr (c, rs')) \<Longrightarrow>
   maze_get (maze obj) (cell_x c) (cell_y c) = Inr CELL_PASSAGE \<and> c \<noteq> start
   \<and> 1 \<le> cell_x c \<and> cell_x c \<le> maze_width obj - 2
   \<and> 1 \<le> cell_y c \<and> cell_y c \<le> maze_height obj - 2"
proof (induction obj start rs rule: pick_end.induct)
  case (1 obj start rs)
  from "1.prems" obtain d rs1 where d: "draw_xy obj rs = Some (Inr (d, rs1))"
    by (subst (asm) pick_end.simps) (auto split: option.splits sum.splits)
  from "1.prems" d obtain v where v: "maze_get (maze obj) (cell_x d) (cell_y d) = Inr v"
    by (subst (asm) pick_end.simps) (auto split: sum.splits)
  show ?case
  proof (cases "v \<noteq> CELL_PASSAGE \<or> (cell_x start = cell_x d \<and> cell_y start = cell_y d)")
    case True
    then have "pick_end obj start rs1 = Some (Inr (c, rs'))"
      using "1.prems" d v by (subst (asm) pick_end.simps) simp
    with "1.IH" [OF d refl refl v True] show ?thesis by simp
  next
    case False
    then have "c = d" using "1.prems" d v by (subst (asm) pick_end.simps) (auto split: if_splits)
    with False v draw_xy_range [OF d] show ?thesis by auto
  qed
qed

lemma mark_start_end_cells_passages:
  assumes "mark_start_end_cells obj rs = Some (Inr (a, b))"
  shows "a \<noteq> b
    \<and> maze_get (maze obj) (cell_x a) (cell_y a) = Inr CELL_PASSAGE
    \<and> maze_get (maze obj) (cell_x b) (cell_y b) = Inr CELL_PASSAGE
    \<and> 1 \<le> cell_x a \<and> cell_x a \<le> maze_width obj - 2
    \<and> 1 \<le> cell_y a \<and> cell_y a \<le> maze_height obj - 2
    \<and> 1 \<le> cell_x b \<and> cell_x b \<le> maze_width obj - 2
    \<and> 1 \<le> cell_y b \<and> cell_y b \<le> maze_height obj - 2"
proof -
  from assms obtain rs1 rs2 where s: "pick_start obj rs = Some (Inr (a, rs1))"
    and e: "pick_end obj a rs1 = Some (Inr (b, rs2))"
    unfolding mark_start_end_cells_def
    by (auto split: option.splits sum.splits simp del: pick_start.simps pick_end.simps)
  from pick_start_passage [OF s] pick_end_passage [OF e] show ?thesis by auto
qed

text \<open>For a maze of two or more cells some draws make the constructor return.\<close>

lemma kruskal_loop_more_draws:
  "kruskal_loop rs s = Some (Inr (s', rs')) \<Longrightarrow>
   kruskal_loop (rs @ extra) s = Some (Inr (s', rs' @ extra))"
proof (induction rs arbitrary: s)
  case Nil
  then have "\<not> loop_cond s" "s' = s" "rs' = []" by (auto split: if_splits)
  then show ?case by simp
next
  case (Cons r rs)
  show ?case
  proof (cases "loop_cond s")
    case False
    with Cons.prems have "s' = s" "rs' = r # rs" by auto
    then show ?thesis using False by simp
  next
    case True
    then have ne: "removable_walls s \<noteq> []" by (simp add: loop_cond_def)
    let ?i = "int (r mod length (removable_walls s))"
    from Cons.prems True obtain s1 where b: "loop_body ?i s = Inr s1"
      and l: "kruskal_loop rs s1 = Some (Inr (s', rs'))"
      by (auto simp: randint_index [OF ne] simp del: randint.simps split: sum.splits)
    from Cons.IH [OF l] show ?thesis
      using True b randint_index [OF ne, of r "rs @ extra"] by (simp del: randint.simps)
  qed
qed

lemma draw_xy_value:
  assumes "1 \<le> maze_width obj - 2" "1 \<le> maze_height obj - 2"
  shows "draw_xy obj (a # b # rs) =
    Some (Inr (Cell (1 + int (a mod nat (maze_width obj - 2)))
                    (1 + int (b mod nat (maze_height obj - 2))), rs))"
  using assms by (simp add: draw_xy_def)

lemma selection_can_return:
  assumes inv: "maze_inv w h s" and w: "1 \<le> w" and h: "1 \<le> h" and two: "2 \<le> w * h"
  shows "\<exists>rs a b. mark_start_end_cells (self_obj s) (rs @ extra) = Some (Inr (a, b))"
proof -
  let ?obj = "self_obj s"
  from inv have dims: "maze_width ?obj = 2 * w + 1" "maze_height ?obj = 2 * h + 1"
    by (simp_all add: maze_inv_def)
  have rng: "1 \<le> maze_width ?obj - 2" "1 \<le> maze_height ?obj - 2"
    using dims w h by simp_all
  have pass: "maze_get (maze ?obj) (cell_x c) (cell_y c) = Inr CELL_PASSAGE"
    if "is_logical w h c" for c
    using passage_iff [OF inv logical_in_grid [OF that]] that by (simp add: cell_state_def)
  have l11: "is_logical w h (Cell 1 1)" using w h by (simp add: is_logical_def)
  have d0: "draw_xy ?obj (0 # 0 # rs) = Some (Inr (Cell 1 1, rs))" for rs
    using draw_xy_value [OF rng, of 0 0 rs] by simp
  have start: "pick_start ?obj (0 # 0 # rs) = Some (Inr (Cell 1 1, rs))" for rs
    using pass [OF l11] by (subst pick_start.simps) (simp add: d0)
  have "2 \<le> w \<or> 2 \<le> h"
  proof (rule ccontr)
    assume "\<not> ?thesis"
    with w h have "w = 1" "h = 1" by simp_all
    with two show False by simp
  qed
  then obtain a b c where c: "is_logical w h c" "c \<noteq> Cell 1 1"
    and d: "\<And>rs. draw_xy ?obj (a # b # rs) = Some (Inr (c, rs))"
  proof
    assume w2: "2 \<le> w"
    then have "2 mod nat (2 * w - 1) = 2" by simp
    then have "draw_xy ?obj (2 # 0 # rs) = Some (Inr (Cell 3 1, rs))" for rs
      using draw_xy_value [OF rng, of 2 0 rs] dims by simp
    moreover have "is_logical w h (Cell 3 1)" using w2 h by (simp add: is_logical_def)
    ultimately show ?thesis using that [of "Cell 3 1" 2 0] by simp
  next
    assume h2: "2 \<le> h"
    then have "2 mod nat (2 * h - 1) = 2" by simp
    then have "draw_xy ?obj (0 # 2 # rs) = Some (Inr (Cell 1 3, rs))" for rs
      using draw_xy_value [OF rng, of 0 2 rs] dims by simp
    moreover have "is_logical w h (Cell 1 3)" using h2 w by (simp add: is_logical_def)
    ultimately show ?thesis using that [of "Cell 1 3" 0 2] by simp
  qed
  have "c \<noteq> Cell 1 1 \<longleftrightarrow> \<not> (1 = cell_x c \<and> 1 = cell_y c)" by (cases c) auto
  with c(2) have ne: "\<not> (1 = cell_x c \<and> 1 = cell_y c)" by simp
  have fin: "pick_end ?obj (Cell 1 1) (a # b # rs) = Some (Inr (c, rs))" for rs
    using pass [OF c(1)] ne by (subst pick_end.simps) (auto simp: d simp del: pick_end.simps)
  have "max (2 * w + 1) (2 * h + 1) \<noteq> 0" by presburger
  then have "mark_start_end_cells ?obj ([0, 0, a, b] @ extra) = Some (Inr (Cell 1 1, c))"
    using dims
    by (simp add: mark_start_end_cells_def start fin py_div_def
        del: pick_start.simps pick_end.simps)
  then show ?thesis by blast
qed

lemma constructor_can_return:
  assumes w: "1 \<le> w" and h: "1 \<le> h" and two: "2 \<le> w * h"
  shows "\<exists>rs res. KruskalMaze_init w h rs = Some (Inr res)"
proof -
  from generation_can_stop [OF w h] obtain rs s
    where l: "generation_loop (new_maze w h) rs = Some (Inr (s, []))"
    by blast
  from generation_loop_inv [OF w h l] have inv: "maze_inv w h s" by simp
  from selection_can_return [OF inv w h two, of "[]"] obtain rs2 a b
    where m: "mark_start_end_cells (self_obj s) rs2 = Some (Inr (a, b))"
    by auto
  from l have "kruskal_loop rs (start_state (new_maze w h) (candidate_walls w h))
      = Some (Inr (s, []))"
    by (simp add: generation_loop_def initial_removable_walls_new_maze)
  from kruskal_loop_more_draws [OF this, of rs2]
  have l2: "generation_loop (new_maze w h) (rs @ rs2) = Some (Inr (s, rs2))"
    by (simp add: generation_loop_def initial_removable_walls_new_maze)
  have "w \<noteq> 0" "h \<noteq> 0" using w h by simp_all
  then have g: "\<exists>g. window_geometry w h = Inr g"
    by (simp add: window_geometry_def py_div_def)
  then have "KruskalMaze_init w h (rs @ rs2)
      = Some (Inr \<lparr>final = s, start_cell = a, end_cell = b\<rparr>)"
    by (auto simp: KruskalMaze_init_def generate_maze_kruskal_def l2 m)
  then show ?thesis by blast
qed

text \<open>
  Claim C7, as amended. For every \<open>width \<ge> 1\<close> and \<open>height \<ge> 1\<close>, when the constructor
  returns, the start cell and the end cell are two distinct cells strictly inside the
  border that are passages of the final grid; each of them is a logical cell (odd/odd
  coordinates) or a wall that the generation has converted to a passage. For a maze of
  two or more cells there are draws for which the constructor returns. The theorem after
  the witness shows a run whose start cell is a converted wall.
\<close>

theorem start_end_distinct_passages:
  "1 \<le> width \<Longrightarrow> 1 \<le> height \<Longrightarrow>
     (2 \<le> width * height \<longrightarrow>
        (\<exists>rs0 res0. KruskalMaze_init width height rs0 = Some (Inr res0)))
     \<and> (KruskalMaze_init width height rs = Some (Inr res) \<longrightarrow>
          start_cell res \<noteq> end_cell res
          \<and> cell_state (final res) (start_cell res) = Inr CELL_PASSAGE
          \<and> cell_state (final res) (end_cell res) = Inr CELL_PASSAGE
          \<and> in_grid width height (start_cell res) \<and> \<not> on_border width height (start_cell res)
          \<and> in_grid width height (end_cell res) \<and> \<not> on_border width height (end_cell res)
          \<and> (is_logical width height (start_cell res)
               \<or> start_cell res \<in> set (removed (final res)))
          \<and> (is_logical width height (end_cell res)
               \<or> end_cell res \<in> set (removed (final res))))"
proof -
  assume w: "1 \<le> width" and h: "1 \<le> height"
  have ex: "2 \<le> width * height \<longrightarrow>
      (\<exists>rs0 res0. KruskalMaze_init width height rs0 = Some (Inr res0))"
    using constructor_can_return [OF w h] by blast
  have sel: "start_cell res \<noteq> end_cell res
          \<and> cell_state (final res) (start_cell res) = Inr CELL_PASSAGE
          \<and> cell_state (final res) (end_cell res) = Inr CELL_PASSAGE
          \<and> in_grid width height (start_cell res) \<and> \<not> on_border width height (start_cell res)
          \<and> in_grid width height (end_cell res) \<and> \<not> on_border width height (end_cell res)
          \<and> (is_logical width height (start_cell res)
               \<or> start_cell res \<in> set (removed (final res)))
          \<and> (is_logical width height (end_cell res)
               \<or> end_cell res \<in> set (removed (final res)))"
    if run: "KruskalMaze_init width height rs = Some (Inr res)"
  proof -
    from run obtain s rs' a b
      where l: "generation_loop (new_maze width height) rs = Some (Inr (s, rs'))"
        and m: "mark_start_end_cells (self_obj s) rs' = Some (Inr (a, b))"
        and res: "res = \<lparr>final = s, start_cell = a, end_cell = b\<rparr>"
      unfolding KruskalMaze_init_def generate_maze_kruskal_def Let_def
      by (auto split: option.splits sum.splits)
    from generation_loop_inv [OF w h l] have inv: "maze_inv width height s" by simp
    then have dims: "maze_width (self_obj s) = 2 * width + 1" "maze_height (self_obj s) = 2 * height + 1"
      by (simp_all add: maze_inv_def)
    from mark_start_end_cells_passages [OF m] dims
    have ne: "a \<noteq> b"
      and pa: "cell_state s a = Inr CELL_PASSAGE" and pb: "cell_state s b = Inr CELL_PASSAGE"
      and ra: "1 \<le> cell_x a" "cell_x a \<le> 2 * width - 1" "1 \<le> cell_y a" "cell_y a \<le> 2 * height - 1"
      and rb: "1 \<le> cell_x b" "cell_x b \<le> 2 * width - 1" "1 \<le> cell_y b" "cell_y b \<le> 2 * height - 1"
      by (simp_all add: cell_state_def)
    have ga: "in_grid width height a" "\<not> on_border width height a"
      using ra by (auto simp: in_grid_def on_border_def)
    have gb: "in_grid width height b" "\<not> on_border width height b"
      using rb by (auto simp: in_grid_def on_border_def)
    have ka: "is_logical width height a \<or> a \<in> set (removed s)"
      using passage_iff [OF inv ga(1)] pa by simp
    have kb: "is_logical width height b \<or> b \<in> set (removed s)"
      using passage_iff [OF inv gb(1)] pb by simp
    from ne pa pb ga gb ka kb show ?thesis by (simp add: res)
  qed
  from ex sel show ?thesis by blast
qed

theorem start_end_distinct_passages_witness:
  "(1::int) \<le> 2 \<and> (1::int) \<le> 2
   \<and> (case KruskalMaze_init 2 2 [3, 1, 0, 2, 1, 0, 2, 0, 2, 2, 2] of
         Some (Inr res) \<Rightarrow>
           start_cell res = Cell 1 3 \<and> end_cell res = Cell 3 3
           \<and> cell_state (final res) (start_cell res) = Inr CELL_PASSAGE
           \<and> cell_state (final res) (end_cell res) = Inr CELL_PASSAGE
       | _ \<Rightarrow> False)"
proof -
  define R where "R = \<lparr>final =
          \<lparr>self_obj =
             \<lparr>maze_width = 5, maze_height = 5,
                maze =
                  [[1, 1, 1, 1, 1], [1, 0, 0, 0, 1], [1, 0, 1, 1, 1],
                   [1, 0, 0, 0, 1], [1, 1, 1, 1, 1]],
                disjoint_set =
                  \<lparr>ds_width = 2, ds_height = 2, parent = [2, 2, 2, 2],
                     comp_size = [1, 1, 4, 1], set_count = 1\<rparr>\<rparr>,
             removable_walls = [Cell 3 2],
             removed = [Cell 2 3, Cell 1 2, Cell 2 1]\<rparr>,
          start_cell = Cell 1 3, end_cell = Cell 3 3\<rparr>"
  have run: "KruskalMaze_init 2 2 [3, 1, 0, 2, 1, 0, 2, 0, 2, 2, 2] = Some (Inr R)"
    unfolding R_def by code_simp
  have cells: "start_cell R = Cell 1 3" "end_cell R = Cell 3 3" by (simp_all add: R_def)
  from start_end_distinct_passages [of 2 2 "[3, 1, 0, 2, 1, 0, 2, 0, 2, 2, 2]" R] run
  have "cell_state (final R) (start_cell R) = Inr CELL_PASSAGE"
    "cell_state (final R) (end_cell R) = Inr CELL_PASSAGE"
    by simp_all
  with cells have "start_cell R = Cell 1 3 \<and> end_cell R = Cell 3 3
           \<and> cell_state (final R) (start_cell R) = Inr CELL_PASSAGE
           \<and> cell_state (final R) (end_cell R) = Inr CELL_PASSAGE"
    by blast
  then show ?thesis
    by (simp only: run option.case sum.case) auto
qed

theorem start_on_removed_wall_counterexample:
  "(case KruskalMaze_init 2 1 [0, 1, 0, 0, 0] of
      Some (Inr res) \<Rightarrow>
        start_cell res = Cell 2 1 \<and> \<not> is_logical 2 1 (start_cell res)
        \<and> start_cell res \<in> set (removed (final res))
    | _ \<Rightarrow> False)"
  by code_simp

subsection \<open>The maze with a single cell\<close>

lemma candidate_walls_1x1: "candidate_walls 1 1 = []"
proof -
  have "\<not> is_candidate 1 1 c" for c
  proof
    assume "is_candidate 1 1 c"
    then have "cell_x c = 1" "cell_y c = 1" "(cell_x c mod 2 = 1) \<noteq> (cell_y c mod 2 = 1)"
      by (auto simp: is_candidate_def)
    then show False by simp
  qed
  then have "set (candidate_walls 1 1) = {}" by (simp add: set_candidate_walls)
  then show ?thesis by simp
qed

lemma generation_loop_1x1:
  "generation_loop (new_maze 1 1) rs = Some (Inr (start_state (new_maze 1 1) [], rs))"
  by (simp add: generation_loop_def initial_removable_walls_new_maze candidate_walls_1x1
      kruskal_loop_no_walls start_state_def del: kruskal_loop.simps)

lemma draw_xy_1x1:
  "draw_xy (new_maze 1 1) rs = None \<or> (\<exists>rs'. draw_xy (new_maze 1 1) rs = Some (Inr (Cell 1 1, rs')))"
  by (auto simp: draw_xy_def new_maze_def split: list.splits)

lemma maze_get_1x1: "maze_get (maze (new_maze 1 1)) 1 1 = Inr CELL_PASSAGE"
  using maze_get_new_maze [of 1 1 1 1] by (simp add: in_grid_def)

lemma pick_start_1x1:
  "pick_start (new_maze 1 1) rs = None
   \<or> (\<exists>rs'. pick_start (new_maze 1 1) rs = Some (Inr (Cell 1 1, rs')))"
  using draw_xy_1x1 [of rs]
  by (subst pick_start.simps, subst (2) pick_start.simps) (auto simp: maze_get_1x1)

lemma pick_end_1x1: "pick_end (new_maze 1 1) (Cell 1 1) rs = None"
proof (induction rs rule: length_induct)
  case (1 rs)
  from draw_xy_1x1 [of rs] show ?case
  proof
    assume "draw_xy (new_maze 1 1) rs = None"
    then show ?thesis by (subst pick_end.simps) simp
  next
    assume "\<exists>rs'. draw_xy (new_maze 1 1) rs = Some (Inr (Cell 1 1, rs'))"
    then obtain rs' where d: "draw_xy (new_maze 1 1) rs = Some (Inr (Cell 1 1, rs'))" by blast
    then have "length rs' < length rs"
      by (auto simp: draw_xy_def split: if_splits list.splits)
    with 1 have "pick_end (new_maze 1 1) (Cell 1 1) rs' = None" by simp
    then show ?thesis by (subst pick_end.simps) (simp add: d maze_get_1x1)
  qed
qed

lemma mark_start_end_cells_1x1: "mark_start_end_cells (new_maze 1 1) rs = None"
  using pick_start_1x1 [of rs]
  by (auto simp: mark_start_end_cells_def pick_end_1x1 simp del: pick_start.simps pick_end.simps)

text \<open>
  Claim C8 fails on the code. For \<open>width = 1\<close> and \<open>height = 1\<close> the generation loop
  returns at once, with the single passage cell \<open>(1, 1)\<close>, and the start/end selection
  never returns, whatever the draws are: every draw for the end cell is the start cell
  again. No too-small-maze condition is raised.
\<close>

theorem single_cell_selection_diverges:
  "generation_loop (new_maze 1 1) rs = Some (Inr (start_state (new_maze 1 1) [], rs))
   \<and> mark_start_end_cells (new_maze 1 1) rs = None
   \<and> KruskalMaze_init 1 1 rs = None"
proof -
  have "self_obj (start_state (new_maze 1 1) []) = new_maze 1 1"
    by (simp add: start_state_def)
  then have "generate_maze_kruskal (new_maze 1 1) rs = None"
    by (simp add: generate_maze_kruskal_def generation_loop_1x1 mark_start_end_cells_1x1)
  moreover have "window_geometry 1 1 = Inr (WINDOW_SIZE, WINDOW_SIZE)"
    by (simp add: window_geometry_def py_div_def)
  ultimately have "KruskalMaze_init 1 1 rs = None"
    by (simp add: KruskalMaze_init_def)
  then show ?thesis
    by (simp add: generation_loop_1x1 mark_start_end_cells_1x1)
qed

theorem single_cell_selection_diverges_witness:
  "mark_start_end_cells (new_maze 1 1) [0, 1, 2, 3, 4, 5, 6] = None
   \<and> KruskalMaze_init 1 1 [0, 1, 2, 3, 4, 5, 6] = None"
  using single_cell_selection_diverges [of "[0, 1, 2, 3, 4, 5, 6]"] by blast

end
